theory Spec2Isabelle
  imports Complex_Main
begin

section \<open>Python values shared by the components\<close>

text \<open>
  A Python \<open>str\<close> is modelled as a \<open>string\<close> (a list of \<open>char\<close>). The
  whitespace and line-boundary tables below are the ASCII part of CPython's tables;
  the whitespace and line-boundary characters that exist only beyond ASCII
  (U+0085, U+00A0, U+2028, ...) are not recognised by this model.

  Python floats (monotonic time stamps, ranking scores, vector distances) are modelled
  as exact rationals, so rounding is not part of the model.

  Exceptions are values of type \<open>exn\<close>; they stand for instances of Python's
  \<open>Exception\<close>, which is what every \<open>except Exception\<close> of the source catches.
  Task cancellation is outside the model.
\<close>

datatype exn =
    Exception string
  | TypeError string
  | KeyError string
  | ZeroDivisionError
  | OperationalError string

definition is_space :: "char \<Rightarrow> bool" where
  \<comment> \<open>\<open>str.isspace\<close> on ASCII: tab, LF, VT, FF, CR, FS, GS, RS, US and the blank.\<close>
  "is_space c = (c \<in> set [CHR 0x09, CHR 0x0A, CHR 0x0B, CHR 0x0C, CHR 0x0D,
                            CHR 0x1C, CHR 0x1D, CHR 0x1E, CHR 0x1F, CHR 0x20])"

definition strip :: "string \<Rightarrow> string" where
  \<comment> \<open>\<open>s.strip()\<close>: leading and trailing whitespace removed.\<close>
  "strip s = rev (dropWhile is_space (rev (dropWhile is_space s)))"

fun join :: "string \<Rightarrow> string list \<Rightarrow> string" where
  \<comment> \<open>\<open>sep.join(xs)\<close>\<close>
  "join sep [] = []"
| "join sep [x] = x"
| "join sep (x # y # ys) = x @ sep @ join sep (y # ys)"


section \<open>Dispatcher (dispatcher.py)\<close>

subsection \<open>Data\<close>

record QueuedMessage =
  qm_chat_id :: string
  qm_text :: string
  qm_user_name :: string
  qm_timestamp :: rat

record WorkItem =
  chat_id :: string
  messages :: "QueuedMessage list"
  lane :: string

text \<open>
  The events of an agent run, as \<open>_process\<close> reads them: an event may carry a content,
  a content may carry a list of parts (the attribute can be \<open>None\<close>), a part may carry
  a text.
\<close>

datatype part = Part (part_text: "string option")
datatype content = Content (parts: "part list option")
datatype event = Event (event_content: "content option")

text \<open>A session object of the session service; only its id is read by the dispatcher.\<close>

record session =
  sid :: string

record Settings =
  app_name :: string
  session_idle_timeout :: rat
  admin_chat_id :: string

text \<open>
  The dispatcher's own mutable state: \<open>_sessions\<close>, \<open>_last_activity\<close> and the keys of
  \<open>_chat_locks\<close> (the lock objects themselves carry no data in a sequential run).
\<close>

record Dispatcher =
  sessions :: "string \<rightharpoonup> string"
  last_activity :: "string \<rightharpoonup> rat"
  chat_locks :: "string set"

text \<open>
  The external collaborators. Each field says how the collaborator answers a call with
  the given arguments: normally, or by raising. An agent run yields a list of events
  and then either ends (\<open>None\<close>) or raises. \<open>curator_runner\<close> is \<open>None\<close> when the
  dispatcher was built without a curator.
\<close>

record world =
  curator_runner :: "(string \<Rightarrow> string \<Rightarrow> string \<Rightarrow> exn option) option"
  create_session :: "string \<Rightarrow> string \<Rightarrow> exn + session"
  get_session :: "string \<Rightarrow> string \<Rightarrow> string \<Rightarrow> exn + session option"
  delete_session :: "string \<Rightarrow> string \<Rightarrow> string \<Rightarrow> exn option"
  add_session_to_memory :: "session \<Rightarrow> exn option"
  run_async :: "string \<Rightarrow> string \<Rightarrow> string \<Rightarrow> event list \<times> exn option"
  send_reply :: "string \<Rightarrow> string \<Rightarrow> exn option"

text \<open>
  What an operation did to the outside: the calls it made to the collaborators, in
  order, and the exceptions it swallowed with \<open>logger.exception\<close>. Informational log
  lines are not recorded.
\<close>

datatype call =
    CuratorRun string string string
  | GetSession string string string
  | AddSessionToMemory session
  | DeleteSession string string string
  | CreateSession string string
  | RunAgent string string string
  | SendReply string string
  | LogException string exn

definition CURATION_PROMPT :: string where
  "CURATION_PROMPT =
     ''Summarize the key facts, preferences, and decisions from this conversation '' @
     ''and save them to long-term memory.''"

definition APOLOGY :: string where
  "APOLOGY = ''Sorry, I encountered an error processing your message.''"

subsection \<open>Session rotation\<close>

definition get_lock :: "Dispatcher \<Rightarrow> string \<Rightarrow> Dispatcher" where
  "get_lock d c = d\<lparr>chat_locks := insert c (chat_locks d)\<rparr>"

definition idle_elapsed :: "Dispatcher \<Rightarrow> string \<Rightarrow> rat \<Rightarrow> rat" where
  \<comment> \<open>\<open>now - self._last_activity.get(chat_id, now)\<close>\<close>
  "idle_elapsed d c now = now - (case last_activity d c of None \<Rightarrow> now | Some t \<Rightarrow> t)"

definition curate_step :: "world \<Rightarrow> string \<Rightarrow> string \<Rightarrow> call list" where
  \<comment> \<open>Step 1: run the curator on the session; an exception is logged.\<close>
  "curate_step w c s =
     (case curator_runner w of
        None \<Rightarrow> []
      | Some run \<Rightarrow>
          CuratorRun c s CURATION_PROMPT #
          (case run c s CURATION_PROMPT of
             None \<Rightarrow> []
           | Some e \<Rightarrow> [LogException (''Error during curation for chat '' @ c) e]))"

definition flush_step :: "world \<Rightarrow> Settings \<Rightarrow> string \<Rightarrow> string \<Rightarrow> call list" where
  \<comment> \<open>Step 2: fetch the session and hand it to the memory service; an exception of
      either call is logged.\<close>
  "flush_step w cfg c s =
     GetSession (app_name cfg) c s #
     (case get_session w (app_name cfg) c s of
        Inl e \<Rightarrow> [LogException (''Error flushing session for chat '' @ c) e]
      | Inr None \<Rightarrow> []
      | Inr (Some obj) \<Rightarrow>
          AddSessionToMemory obj #
          (case add_session_to_memory w obj of
             None \<Rightarrow> []
           | Some e \<Rightarrow> [LogException (''Error flushing session for chat '' @ c) e]))"

definition delete_step :: "world \<Rightarrow> Settings \<Rightarrow> string \<Rightarrow> string \<Rightarrow> call list" where
  \<comment> \<open>Step 3: delete the old session; an exception is logged.\<close>
  "delete_step w cfg c s =
     DeleteSession (app_name cfg) c s #
     (case delete_session w (app_name cfg) c s of
        None \<Rightarrow> []
      | Some e \<Rightarrow> [LogException (''Error deleting old session for chat '' @ c) e])"

definition rotate_session ::
  "world \<Rightarrow> Settings \<Rightarrow> rat \<Rightarrow> Dispatcher \<Rightarrow> string \<Rightarrow> Dispatcher \<times> call list \<times> exn option"
where
  \<comment> \<open>\<open>_rotate_session\<close>, run under the chat's lock; \<open>now\<close> is the reading of the
      monotonic clock. The result is the new state, the calls made, and the exception
      that leaves the function, if any.\<close>
  "rotate_session w cfg now d0 c =
     (let d = get_lock d0 c in
      if idle_elapsed d c now < session_idle_timeout cfg then (d, [], None)
      else
        (case sessions d c of
           None \<Rightarrow> (d, [], None)
         | Some s \<Rightarrow>
             (let tr = curate_step w c s @ flush_step w cfg c s @ delete_step w cfg c s @
                       [CreateSession (app_name cfg) c]
              in case create_session w (app_name cfg) c of
                   Inl e \<Rightarrow> (d, tr, Some e)
                 | Inr new_session \<Rightarrow>
                     (let d1 = d\<lparr>sessions := (sessions d)(c \<mapsto> sid new_session)\<rparr>
                      in case last_activity d1 c of
                           None \<Rightarrow> (d1, tr, Some (KeyError c))
                         | Some t \<Rightarrow>
                             (d1\<lparr>last_activity := (last_activity d1)(c := None)\<rparr>,
                              tr, None)))))"


fun deletions :: "call list \<Rightarrow> (string \<times> string \<times> string) list" where
  \<comment> \<open>The deletion record: the arguments of the \<open>delete_session\<close> calls, in order.\<close>
  "deletions [] = []"
| "deletions (DeleteSession a u s # cs) = (a, u, s) # deletions cs"
| "deletions (x # cs) = deletions cs"

fun replies :: "call list \<Rightarrow> (string \<times> string) list" where
  "replies [] = []"
| "replies (SendReply c t # cs) = (c, t) # replies cs"
| "replies (x # cs) = replies cs"

subsection \<open>Processing a work item\<close>

definition combine_messages :: "QueuedMessage list \<Rightarrow> string" where
  \<comment> \<open>One message: its raw text. Otherwise one line per message, prefixed by the sender.\<close>
  "combine_messages ms =
     (case ms of
        [m] \<Rightarrow> qm_text m
      | _ \<Rightarrow> join ''\<newline>'' (map (\<lambda>m. qm_user_name m @ '': '' @ qm_text m) ms))"

fun part_texts :: "part list \<Rightarrow> string list" where
  \<comment> \<open>The texts of the parts that have a non-empty text.\<close>
  "part_texts [] = []"
| "part_texts (Part None # ps) = part_texts ps"
| "part_texts (Part (Some t) # ps) = (if t \<noteq> [] then t # part_texts ps else part_texts ps)"

fun consume_events :: "event list \<Rightarrow> exn option \<Rightarrow> string list \<Rightarrow> string list \<times> exn option" where
  \<comment> \<open>The \<open>async for\<close> loop over the agent's events: \<open>fin\<close> is how the run ends after
      its last event, the result is \<open>response_parts\<close> and the exception that left the
      loop, if any. Iterating over a content whose \<open>parts\<close> is \<open>None\<close> raises.\<close>
  "consume_events [] fin acc = (acc, fin)"
| "consume_events (Event None # evs) fin acc = consume_events evs fin acc"
| "consume_events (Event (Some (Content None)) # evs) fin acc =
     (acc, Some (TypeError ''NoneType object is not iterable''))"
| "consume_events (Event (Some (Content (Some ps))) # evs) fin acc =
     consume_events evs fin (acc @ part_texts ps)"

definition process ::
  "world \<Rightarrow> Settings \<Rightarrow> rat \<Rightarrow> Dispatcher \<Rightarrow> WorkItem \<Rightarrow> Dispatcher \<times> call list \<times> exn option"
where
  \<comment> \<open>\<open>_process\<close>, run under the chat's lock. An exception of \<open>create_session\<close> or of
      \<open>send_reply\<close> leaves the function; one of the agent run is caught.\<close>
  "process w cfg now d0 item =
     (let c = chat_id item;
          d1 = get_lock d0 c;
          d2 = d1\<lparr>last_activity := (last_activity d1)(c \<mapsto> now)\<rparr>;
          combined = combine_messages (messages item);
          created = (case sessions d2 c of
                       Some s \<Rightarrow> Inr (d2, [], s)
                     | None \<Rightarrow>
                         (case create_session w (app_name cfg) c of
                            Inl e \<Rightarrow> Inl e
                          | Inr obj \<Rightarrow>
                              Inr (d2\<lparr>sessions := (sessions d2)(c \<mapsto> sid obj)\<rparr>,
                                   [CreateSession (app_name cfg) c], sid obj)))
      in case created of
           Inl e \<Rightarrow> (d2, [CreateSession (app_name cfg) c], Some e)
         | Inr (d3, tr1, s) \<Rightarrow>
             (let (evs, fin) = run_async w c s combined;
                  (collected, raised) = consume_events evs fin [];
                  response_parts = (case raised of None \<Rightarrow> collected
                                    | Some e \<Rightarrow> collected @ [APOLOGY]);
                  tr2 = (case raised of None \<Rightarrow> []
                         | Some e \<Rightarrow> [LogException (''Error running agent for chat '' @ c) e]);
                  response_text = strip (join ''\<newline>'' response_parts)
              in if response_text \<noteq> []
                 then (d3, tr1 @ [RunAgent c s combined] @ tr2 @ [SendReply c response_text],
                       send_reply w c response_text)
                 else (d3, tr1 @ [RunAgent c s combined] @ tr2, None)))"

subsection \<open>Example collaborators and states\<close>

definition example_settings :: Settings where
  "example_settings =
     \<lparr>app_name = ''adk-claw'', session_idle_timeout = 3 / 10, admin_chat_id = []\<rparr>"

definition failing_world :: world where
  \<comment> \<open>Curation, flush and the agent run raise; the session service works.\<close>
  "failing_world =
     \<lparr>curator_runner = Some (\<lambda>u s p. Some (Exception ''curator unavailable'')),
      create_session = (\<lambda>a u. Inr \<lparr>sid = ''session-2''\<rparr>),
      get_session = (\<lambda>a u s. Inr (Some \<lparr>sid = s\<rparr>)),
      delete_session = (\<lambda>a u s. None),
      add_session_to_memory = (\<lambda>obj. Some (Exception ''disk full'')),
      run_async = (\<lambda>u s t. ([Event (Some (Content (Some [Part (Some ''Partial answer'')])))],
                               Some (Exception ''boom''))),
      send_reply = (\<lambda>c t. None)\<rparr>"


definition idle_dispatcher :: Dispatcher where
  "idle_dispatcher =
     \<lparr>sessions = [''chat1'' \<mapsto> ''session-1''], last_activity = [''chat1'' \<mapsto> 100],
      chat_locks = {}\<rparr>"

definition untracked_dispatcher :: Dispatcher where
  \<comment> \<open>A chat with a session and no activity entry.\<close>
  "untracked_dispatcher =
     \<lparr>sessions = [''chat1'' \<mapsto> ''session-1''], last_activity = Map.empty, chat_locks = {}\<rparr>"



definition hello_item :: WorkItem where
  "hello_item =
     \<lparr>chat_id = ''chat1'',
      messages = [\<lparr>qm_chat_id = ''chat1'', qm_text = ''hello'', qm_user_name = ''alice'',
                   qm_timestamp = 0\<rparr>],
      lane = ''chat''\<rparr>"


section \<open>Debounce queue (queue.py)\<close>

text \<open>
  Every push starts a timer task with \<open>asyncio.create_task\<close>. A task is named by the
  number of its creation; \<open>tasks\<close> records what became of it: it sleeps, it was
  cancelled in its sleep, or it has woken up and run. \<open>timers\<close> is \<open>_timers\<close> (the
  pending task of each chat), \<open>buffers\<close> is \<open>_buffers\<close>, \<open>locks\<close> the keys of \<open>_locks\<close>.
  The bodies under the lock contain no \<open>await\<close>, so each of them is one atomic step.
\<close>

datatype task_status = Sleeping | Cancelled | Finished

record MessageQueue =
  buffers :: "string \<rightharpoonup> QueuedMessage list"
  timers :: "string \<rightharpoonup> nat"
  tasks :: "nat \<rightharpoonup> task_status"
  next_task :: nat
  locks :: "string set"

definition cancel :: "nat \<Rightarrow> (nat \<rightharpoonup> task_status) \<Rightarrow> (nat \<rightharpoonup> task_status)" where
  \<comment> \<open>\<open>task.cancel()\<close>: a sleeping task is cancelled, any other is left as it is.\<close>
  "cancel t ts = (case ts t of Some Sleeping \<Rightarrow> ts(t \<mapsto> Cancelled) | _ \<Rightarrow> ts)"

definition push :: "MessageQueue \<Rightarrow> string \<Rightarrow> string \<Rightarrow> string \<Rightarrow> rat \<Rightarrow> MessageQueue" where
  \<comment> \<open>\<open>push\<close>; \<open>ts\<close> is the time stamp the new message is given.\<close>
  "push q c tx user ts =
     (let buf = (case buffers q c of None \<Rightarrow> [] | Some b \<Rightarrow> b);
          msg = \<lparr>qm_chat_id = c, qm_text = tx, qm_user_name = user, qm_timestamp = ts\<rparr>;
          tasks1 = (case timers q c of None \<Rightarrow> tasks q | Some t \<Rightarrow> cancel t (tasks q));
          t' = next_task q
      in q\<lparr>buffers := (buffers q)(c \<mapsto> buf @ [msg]),
            timers := (timers q)(c \<mapsto> t'),
            tasks := tasks1(t' \<mapsto> Sleeping),
            next_task := Suc t',
            locks := insert c (locks q)\<rparr>)"

definition debounce_fire ::
  "MessageQueue \<Rightarrow> nat \<Rightarrow> string \<Rightarrow> MessageQueue \<times> (string \<times> QueuedMessage list) option"
where
  \<comment> \<open>\<open>_debounce_fire\<close> of task \<open>t\<close> at the moment its sleep is over. A task cancelled
      in its sleep ends there. Otherwise the buffer and the timer entry of the chat are
      popped under the lock, and then the callback is invoked if the popped list is not
      empty. The result is the state after the pops, which is the state the callback
      starts in, and the arguments of the callback invocation, if there is one. What the
      callback does is outside the queue; an exception it raises is logged.\<close>
  "debounce_fire q t c =
     (case tasks q t of
        Some Sleeping \<Rightarrow>
          (let msgs = (case buffers q c of None \<Rightarrow> [] | Some b \<Rightarrow> b);
               q' = q\<lparr>buffers := (buffers q)(c := None),
                       timers := (timers q)(c := None),
                       tasks := (tasks q)(t \<mapsto> Finished),
                       locks := insert c (locks q)\<rparr>
           in (q', if msgs \<noteq> [] then Some (c, msgs) else None))
      | _ \<Rightarrow> (q, None))"

text \<open>
  A run of the queue: pushes and ends of sleeps, in the order the event loop executes
  them. The result is the final state and the batches handed to the callback, in order.
\<close>

datatype queue_event = Push string string string rat | Elapsed nat string

fun run_queue ::
  "MessageQueue \<Rightarrow> queue_event list \<Rightarrow> MessageQueue \<times> (string \<times> QueuedMessage list) list"
where
  "run_queue q [] = (q, [])"
| "run_queue q (Push c tx user ts # evs) = run_queue (push q c tx user ts) evs"
| "run_queue q (Elapsed t c # evs) =
     (case debounce_fire q t c of
        (q', None) \<Rightarrow> run_queue q' evs
      | (q', Some batch) \<Rightarrow> (case run_queue q' evs of (q'', bs) \<Rightarrow> (q'', batch # bs)))"

fun messages_of :: "queue_event list \<Rightarrow> QueuedMessage list" where
  \<comment> \<open>The messages that the pushes of a run append to the buffers, in push order.\<close>
  "messages_of [] = []"
| "messages_of (Push c tx user ts # evs) =
     \<lparr>qm_chat_id = c, qm_text = tx, qm_user_name = user, qm_timestamp = ts\<rparr> # messages_of evs"
| "messages_of (Elapsed t c # evs) = messages_of evs"

text \<open>
  A burst of pushes to one chat within the debounce window. The timer task started by a
  push sleeps for the debounce time; the next push arrives within the window when it is
  executed before that sleep is over. So in a run of such a burst, at the moment the
  sleep of a timer task ends, the push after the one that started the task has already
  been executed. \<open>n\<close> is the number of the first task of the burst and \<open>k\<close> the number
  of pushes executed so far: the tasks of the burst are \<open>n, \<dots>, n + k - 1\<close>, the last of
  them belongs to the latest push, and only the sleeps of the tasks before it may end.
  Ends of sleeps may come between the pushes in any order and any number of times.
\<close>

fun within_window :: "string \<Rightarrow> nat \<Rightarrow> nat \<Rightarrow> queue_event list \<Rightarrow> bool" where
  "within_window c n k [] = True"
| "within_window c n k (Push c' tx user ts # evs) = (c' = c \<and> within_window c n (Suc k) evs)"
| "within_window c n k (Elapsed t c' # evs) =
     (c' = c \<and> n \<le> t \<and> Suc t < n + k \<and> within_window c n k evs)"

definition elapses :: "string \<Rightarrow> nat list \<Rightarrow> queue_event list" where
  \<comment> \<open>The sleeps of the given timer tasks of one chat end, in the given order.\<close>
  "elapses c ts = map (\<lambda>t. Elapsed t c) ts"

definition empty_queue :: MessageQueue where
  "empty_queue =
     \<lparr>buffers = Map.empty, timers = Map.empty, tasks = Map.empty, next_task = 0, locks = {}\<rparr>"


section \<open>Memory search (memory/search.py)\<close>

subsection \<open>Chunking\<close>

record MemoryChunk =
  source_file :: string
  heading :: string
  content :: string
  score :: rat

definition is_line_break :: "char \<Rightarrow> bool" where
  \<comment> \<open>The ASCII line boundaries of \<open>str.splitlines\<close>: LF, VT, FF, CR, FS, GS, RS.\<close>
  "is_line_break c =
     (c \<in> set [CHR 0x0A, CHR 0x0B, CHR 0x0C, CHR 0x0D, CHR 0x1C, CHR 0x1D, CHR 0x1E])"

fun splitlines_from :: "string \<Rightarrow> string \<Rightarrow> string list" where
  \<comment> \<open>\<open>cur\<close> is the line read so far. CR LF is one boundary; a boundary at the very end
      opens no further line.\<close>
  "splitlines_from cur [] = (if cur = [] then [] else [cur])"
| "splitlines_from cur (c # cs) =
     (if c = CHR 0x0D then
        (if cs \<noteq> [] \<and> hd cs = CHR 0x0A then cur # splitlines_from [] (tl cs)
         else cur # splitlines_from [] cs)
      else if is_line_break c then cur # splitlines_from [] cs
      else splitlines_from (cur @ [c]) cs)"

definition splitlines :: "string \<Rightarrow> string list" where
  \<comment> \<open>\<open>text.splitlines()\<close>\<close>
  "splitlines s = splitlines_from [] s"

definition is_heading :: "string \<Rightarrow> bool" where
  \<comment> \<open>\<open>line.startswith("#")\<close>\<close>
  "is_heading line = (case line of [] \<Rightarrow> False | c # cs \<Rightarrow> c = CHR ''#'')"

definition heading_text :: "string \<Rightarrow> string" where
  \<comment> \<open>\<open>line.lstrip("#").strip()\<close>\<close>
  "heading_text line = strip (dropWhile (\<lambda>c. c = CHR ''#'') line)"

definition flush_chunk ::
  "string \<Rightarrow> string \<Rightarrow> string list \<Rightarrow> MemoryChunk list \<Rightarrow> MemoryChunk list"
where
  \<comment> \<open>The block that closes the current section: it is in the loop body for a heading
      line and once more after the loop.\<close>
  "flush_chunk src h cur chunks =
     (if cur \<noteq> [] then
        (let body = strip (join ''\<newline>'' cur)
         in if body \<noteq> []
            then chunks @ [\<lparr>source_file = src, heading = h, content = body, score = 0\<rparr>]
            else chunks)
      else chunks)"

fun split_loop ::
  "string \<Rightarrow> string list \<Rightarrow> string \<Rightarrow> string list \<Rightarrow> MemoryChunk list \<Rightarrow> MemoryChunk list"
where
  \<comment> \<open>The loop over the lines, with \<open>current_heading\<close>, \<open>current_lines\<close> and \<open>chunks\<close>.\<close>
  "split_loop src [] h cur chunks = flush_chunk src h cur chunks"
| "split_loop src (line # ls) h cur chunks =
     (if is_heading line
      then split_loop src ls (heading_text line) [] (flush_chunk src h cur chunks)
      else split_loop src ls h (cur @ [line]) chunks)"

definition split_by_headings :: "string \<Rightarrow> string \<Rightarrow> MemoryChunk list" where
  \<comment> \<open>\<open>_split_by_headings(text, source_file)\<close>\<close>
  "split_by_headings text src = split_loop src (splitlines text) [] [] []"

text \<open>
  The specification of chunking, in the words of the spec: the text is cut into
  sections at the heading lines, \<open>P\<close> saying which lines are heading lines. A section is
  a heading with the lines up to the next heading line; the first section has the empty
  heading. One chunk is made of every section whose trimmed body is not empty.
\<close>

function sections ::
  "(string \<Rightarrow> bool) \<Rightarrow> string \<Rightarrow> string list \<Rightarrow> (string \<times> string list) list"
where
  "sections P h ls =
     (h, takeWhile (\<lambda>l. \<not> P l) ls) #
     (case dropWhile (\<lambda>l. \<not> P l) ls of
        [] \<Rightarrow> []
      | l # rest \<Rightarrow> sections P (heading_text l) rest)"
  by pat_completeness auto
termination
proof (relation "measure (\<lambda>(P, h, ls). length ls)")
  show "wf (measure (\<lambda>(P, h, ls). length ls))" by simp
next
  fix P :: "string \<Rightarrow> bool" and h :: string and ls :: "string list" and l rest
  assume d: "dropWhile (\<lambda>l. \<not> P l) ls = l # rest"
  have "length (dropWhile (\<lambda>l. \<not> P l) ls) \<le> length ls" by (rule length_dropWhile_le)
  with d show "((P, heading_text l, rest), (P, h, ls)) \<in> measure (\<lambda>(P, h, ls). length ls)"
    by simp
qed

definition section_chunks :: "string \<Rightarrow> (string \<times> string list) list \<Rightarrow> MemoryChunk list" where
  "section_chunks src secs =
     map (\<lambda>(h, body). \<lparr>source_file = src, heading = h,
                        content = strip (join ''\<newline>'' body), score = 0\<rparr>)
         (filter (\<lambda>(h, body). strip (join ''\<newline>'' body) \<noteq> []) secs)"

definition is_top_level_heading :: "string \<Rightarrow> bool" where
  \<comment> \<open>A heading line of the first level: one \<open>#\<close>, not followed by another.\<close>
  "is_top_level_heading line = (is_heading line \<and> \<not> is_heading (tl line))"

definition split_by_top_level_headings :: "string \<Rightarrow> string \<Rightarrow> MemoryChunk list" where
  \<comment> \<open>Chunking as the spec words it: a split at the top-level heading lines.\<close>
  "split_by_top_level_headings text src =
     section_chunks src (sections is_top_level_heading [] (splitlines text))"


subsection \<open>Reciprocal rank fusion\<close>

type_synonym chunk_key = "string \<times> string \<times> string"

definition key_of :: "MemoryChunk \<Rightarrow> chunk_key" where
  \<comment> \<open>\<open>(chunk.source_file, chunk.heading, chunk.content)\<close>\<close>
  "key_of c = (source_file c, heading c, content c)"

text \<open>
  \<open>scores\<close> is a \<open>dict\<close> that is later iterated, so it is an association list in
  insertion order: assigning to a key that is present keeps its place, a new key goes
  to the end. \<open>chunk_map\<close> is only looked up, so it is a map.
\<close>

fun dict_set :: "('k \<times> 'v) list \<Rightarrow> 'k \<Rightarrow> 'v \<Rightarrow> ('k \<times> 'v) list" where
  \<comment> \<open>\<open>d[k] = v\<close>\<close>
  "dict_set [] k v = [(k, v)]"
| "dict_set ((k', v') # kvs) k v =
     (if k' = k then (k, v) # kvs else (k', v') # dict_set kvs k v)"

definition dict_get :: "('k \<times> 'v) list \<Rightarrow> 'k \<Rightarrow> 'v \<Rightarrow> 'v" where
  \<comment> \<open>\<open>d.get(k, default)\<close>\<close>
  "dict_get d k dflt = (case map_of d k of None \<Rightarrow> dflt | Some v \<Rightarrow> v)"

fun fuse_list ::
  "int \<Rightarrow> (nat \<times> MemoryChunk) list
     \<Rightarrow> (chunk_key \<times> rat) list \<times> (chunk_key \<rightharpoonup> MemoryChunk)
     \<Rightarrow> exn + ((chunk_key \<times> rat) list \<times> (chunk_key \<rightharpoonup> MemoryChunk))"
where
  \<comment> \<open>The inner loop, over \<open>enumerate(ranked_list, start=1)\<close>. The division raises when
      \<open>k + rank\<close> is zero.\<close>
  "fuse_list k [] acc = Inr acc"
| "fuse_list k ((rank, chunk) # rest) (scores, chunk_map) =
     (if k + int rank = 0 then Inl ZeroDivisionError
      else fuse_list k rest
             (dict_set scores (key_of chunk)
                (dict_get scores (key_of chunk) 0 + 1 / of_int (k + int rank)),
              chunk_map(key_of chunk \<mapsto> chunk)))"

fun fuse_lists ::
  "int \<Rightarrow> MemoryChunk list list
     \<Rightarrow> (chunk_key \<times> rat) list \<times> (chunk_key \<rightharpoonup> MemoryChunk)
     \<Rightarrow> exn + ((chunk_key \<times> rat) list \<times> (chunk_key \<rightharpoonup> MemoryChunk))"
where
  \<comment> \<open>The outer loop, over \<open>ranked_lists\<close>.\<close>
  "fuse_lists k [] acc = Inr acc"
| "fuse_lists k (ranked_list # rest) acc =
     (case fuse_list k (enumerate 1 ranked_list) acc of
        Inl e \<Rightarrow> Inl e
      | Inr acc' \<Rightarrow> fuse_lists k rest acc')"

fun build_fused ::
  "(chunk_key \<times> rat) list \<Rightarrow> (chunk_key \<rightharpoonup> MemoryChunk) \<Rightarrow> exn + MemoryChunk list"
where
  \<comment> \<open>The second loop: one new chunk per entry of the sorted scores; \<open>chunk_map[key]\<close>
      raises for a key that is not there.\<close>
  "build_fused [] chunk_map = Inr []"
| "build_fused ((key, s) # rest) chunk_map =
     (case chunk_map key of
        None \<Rightarrow> Inl (KeyError ''chunk_map'')
      | Some chunk \<Rightarrow>
          (case build_fused rest chunk_map of
             Inl e \<Rightarrow> Inl e
           | Inr fused \<Rightarrow>
               Inr (\<lparr>source_file = source_file chunk, heading = heading chunk,
                     content = content chunk, score = s\<rparr> # fused)))"

definition rrf_fuse :: "MemoryChunk list list \<Rightarrow> int \<Rightarrow> exn + MemoryChunk list" where
  \<comment> \<open>\<open>_rrf_fuse(ranked_lists, k)\<close>. \<open>sorted(..., reverse=True)\<close> is stable: entries
      of equal score keep their order.\<close>
  "rrf_fuse ranked_lists k =
     (case fuse_lists k ranked_lists ([], Map.empty) of
        Inl e \<Rightarrow> Inl e
      | Inr (scores, chunk_map) \<Rightarrow> build_fused (sort_key (\<lambda>(key, s). - s) scores) chunk_map)"

text \<open>
  The fused score in the words of the spec: an item at 1-based rank \<open>r\<close> of a list
  contributes \<open>1 / (K + r)\<close> to the total of its key, summed over the lists.
\<close>

definition rank_contribution :: "int \<Rightarrow> MemoryChunk list \<Rightarrow> chunk_key \<Rightarrow> rat" where
  "rank_contribution k l key =
     (\<Sum>(r, c) \<leftarrow> enumerate 1 l. if key_of c = key then 1 / of_int (k + int r) else 0)"

definition rrf_score :: "int \<Rightarrow> MemoryChunk list list \<Rightarrow> chunk_key \<Rightarrow> rat" where
  "rrf_score k ls key = (\<Sum>l \<leftarrow> ls. rank_contribution k l key)"

subsection \<open>Lexical search, vector search and their combination\<close>

definition py_slice_to :: "int \<Rightarrow> 'a list \<Rightarrow> 'a list" where
  \<comment> \<open>\<open>xs[:n]\<close>: a negative \<open>n\<close> counts from the end.\<close>
  "py_slice_to n xs =
     (if 0 \<le> n then take (nat n) xs else take (nat (int (length xs) + n)) xs)"

definition is_word_char :: "char \<Rightarrow> bool" where
  \<comment> \<open>\<open>\w\<close> on ASCII: digits, letters and the underscore.\<close>
  "is_word_char c =
     (let n = (of_char c :: nat)
      in (48 \<le> n \<and> n \<le> 57) \<or> (65 \<le> n \<and> n \<le> 90) \<or> n = 95 \<or> (97 \<le> n \<and> n \<le> 122))"

definition lower_char :: "char \<Rightarrow> char" where
  "lower_char c =
     (let n = (of_char c :: nat) in if 65 \<le> n \<and> n \<le> 90 then char_of (n + 32) else c)"

fun words_from :: "string \<Rightarrow> string \<Rightarrow> string list" where
  \<comment> \<open>\<open>re.findall(r"\w+", s)\<close>; \<open>cur\<close> is the word read so far.\<close>
  "words_from cur [] = (if cur = [] then [] else [cur])"
| "words_from cur (c # cs) =
     (if is_word_char c then words_from (cur @ [c]) cs
      else if cur = [] then words_from [] cs
      else cur # words_from [] cs)"

definition tokenize :: "string \<Rightarrow> string list" where
  \<comment> \<open>\<open>_tokenize\<close>, on ASCII text.\<close>
  "tokenize s = words_from [] (map lower_char s)"

text \<open>
  A row returned by the embedding store's \<open>search_similar\<close>, and the search engine.
  \<open>index\<close> is the BM25 index object, given by its \<open>get_scores\<close>; \<open>embedding_store\<close> is
  the store, given by its \<open>search_similar\<close>. Both are \<open>None\<close> when absent. The function
  \<open>embed_query\<close> of the embedding API is a parameter of the operations that call it.
\<close>

record hit =
  hit_source_file :: string
  hit_heading :: string
  hit_content :: string
  hit_distance :: rat

record MemorySearchEngine =
  chunks :: "MemoryChunk list"
  index :: "(string list \<Rightarrow> rat list) option"
  embedding_store :: "(rat list \<Rightarrow> int \<Rightarrow> exn + hit list) option"
  vector_enabled :: bool

definition bm25_search :: "MemorySearchEngine \<Rightarrow> string \<Rightarrow> int \<Rightarrow> MemoryChunk list" where
  \<comment> \<open>\<open>_bm25_search(query, top_k)\<close>\<close>
  "bm25_search eng query top_k =
     (case index eng of
        None \<Rightarrow> []
      | Some get_scores \<Rightarrow>
          if chunks eng = [] then []
          else
            (let tokens = tokenize query
             in if tokens = [] then []
                else
                  (let scores = get_scores tokens;
                       scored = [chunk\<lparr>score := s\<rparr>. (chunk, s) \<leftarrow> zip (chunks eng) scores, 0 < s]
                   in py_slice_to top_k (sort_key (\<lambda>c. - score c) scored))))"

fun hits_to_chunks :: "hit list \<Rightarrow> exn + MemoryChunk list" where
  \<comment> \<open>The list comprehension over the rows; the division raises for distance \<open>-1\<close>.\<close>
  "hits_to_chunks [] = Inr []"
| "hits_to_chunks (r # rs) =
     (if 1 + hit_distance r = 0 then Inl ZeroDivisionError
      else
        (case hits_to_chunks rs of
           Inl e \<Rightarrow> Inl e
         | Inr cs \<Rightarrow>
             Inr (\<lparr>source_file = hit_source_file r, heading = hit_heading r,
                   content = hit_content r, score = 1 / (1 + hit_distance r)\<rparr> # cs)))"

definition vector_search ::
  "MemorySearchEngine \<Rightarrow> (string \<Rightarrow> exn + rat list) \<Rightarrow> string \<Rightarrow> int \<Rightarrow> MemoryChunk list"
where
  \<comment> \<open>\<open>_vector_search(query, top_k)\<close>: every exception inside gives the empty list.\<close>
  "vector_search eng embed_query query top_k =
     (if \<not> vector_enabled eng then []
      else
        (case embedding_store eng of
           None \<Rightarrow> []
         | Some search_similar \<Rightarrow>
             (case embed_query query of
                Inl e \<Rightarrow> []
              | Inr query_emb \<Rightarrow>
                  (case search_similar query_emb top_k of
                     Inl e \<Rightarrow> []
                   | Inr results \<Rightarrow>
                       (case hits_to_chunks results of Inl e \<Rightarrow> [] | Inr cs \<Rightarrow> cs)))))"

definition search ::
  "MemorySearchEngine \<Rightarrow> (string \<Rightarrow> exn + rat list) \<Rightarrow> string \<Rightarrow> int \<Rightarrow> exn + MemoryChunk list"
where
  \<comment> \<open>\<open>search(query, top_k)\<close>\<close>
  "search eng embed_query query top_k =
     (let bm25_results = bm25_search eng query (top_k * 2)
      in if \<not> vector_enabled eng then Inr (py_slice_to top_k bm25_results)
         else
           (let vector_results = vector_search eng embed_query query (top_k * 2)
            in if vector_results = [] then Inr (py_slice_to top_k bm25_results)
               else
                 (case rrf_fuse [bm25_results, vector_results] 60 of
                    Inl e \<Rightarrow> Inl e
                  | Inr fused \<Rightarrow> Inr (py_slice_to top_k fused))))"

subsection \<open>Example chunks and engine\<close>

definition chunk_a :: MemoryChunk where
  "chunk_a = \<lparr>source_file = ''test.md'', heading = ''a'', content = ''content of a'', score = 0\<rparr>"

definition chunk_b :: MemoryChunk where
  "chunk_b = \<lparr>source_file = ''test.md'', heading = ''b'', content = ''content of b'', score = 0\<rparr>"

definition chunk_c :: MemoryChunk where
  "chunk_c = \<lparr>source_file = ''test.md'', heading = ''c'', content = ''content of c'', score = 0\<rparr>"

definition example_engine :: MemorySearchEngine where
  \<comment> \<open>Three chunks, an index that scores them 1, 3 and 2 for any query, and a store whose
      search fails.\<close>
  "example_engine =
     \<lparr>chunks = [chunk_a, chunk_b, chunk_c],
      index = Some (\<lambda>tokens. [1, 3, 2]),
      embedding_store = Some (\<lambda>v n. Inl (OperationalError ''no such table: vec_chunks'')),
      vector_enabled = True\<rparr>"

definition hybrid_engine :: MemorySearchEngine where
  \<comment> \<open>The same chunks and index, with a store that returns \<open>chunk_b\<close> at distance 1.\<close>
  "hybrid_engine =
     \<lparr>chunks = [chunk_a, chunk_b, chunk_c],
      index = Some (\<lambda>tokens. [1, 3, 2]),
      embedding_store =
        Some (\<lambda>v n. Inr [\<lparr>hit_source_file = ''test.md'', hit_heading = ''b'',
                             hit_content = ''content of b'', hit_distance = 1\<rparr>]),
      vector_enabled = True\<rparr>"


section \<open>Embedding store (memory/embeddings.py)\<close>

text \<open>
  The SQLite database of the store: the table \<open>chunks\<close> (its rows in insertion order;
  \<open>id\<close> is \<open>INTEGER PRIMARY KEY AUTOINCREMENT\<close>, \<open>content_hash\<close> is \<open>UNIQUE\<close>), the
  vector table \<open>vec_chunks\<close> (\<open>id\<close> is its primary key, \<open>embedding\<close> is \<open>float[768]\<close>)
  and the counter SQLite keeps for \<open>AUTOINCREMENT\<close>. A chunk handed to \<open>upsert_chunks\<close>
  is a \<open>dict\<close> with the four keys of the docstring.
\<close>

definition EMBEDDING_DIM :: nat where
  "EMBEDDING_DIM = 768"

record chunk_row =
  row_id :: nat
  row_source_file :: string
  row_heading :: string
  row_content :: string
  row_content_hash :: string

record chunk_dict =
  cd_source_file :: string
  cd_heading :: string
  cd_content :: string
  cd_content_hash :: string

record EmbeddingStore =
  chunks_table :: "chunk_row list"
  vec_chunks :: "(nat \<times> rat list) list"
  sqlite_sequence :: nat

definition content_hash :: "(string \<Rightarrow> string) \<Rightarrow> string \<Rightarrow> string \<Rightarrow> string \<Rightarrow> string" where
  \<comment> \<open>\<open>content_hash\<close>; the hash function (SHA-256, as hex digits) is a parameter.\<close>
  "content_hash sha256_hex src h c = sha256_hex (src @ ''|'' @ h @ ''|'' @ c)"

definition get_existing_hashes :: "EmbeddingStore \<Rightarrow> string set" where
  "get_existing_hashes st = set (map row_content_hash (chunks_table st))"

definition next_row_id :: "EmbeddingStore \<Rightarrow> nat" where
  \<comment> \<open>The id \<open>AUTOINCREMENT\<close> gives to the next row: one more than the largest id that
      is or ever was in the table.\<close>
  "next_row_id st =
     Suc (max (sqlite_sequence st) (fold max (map row_id (chunks_table st)) 0))"

fun upsert_loop ::
  "EmbeddingStore \<Rightarrow> (chunk_dict \<times> rat list) list \<Rightarrow> nat \<Rightarrow> EmbeddingStore \<times> (exn + nat)"
where
  \<comment> \<open>The loop over \<open>zip(chunks, embeddings)\<close>, with the counter \<open>inserted\<close>. The first
      \<open>INSERT\<close> raises \<open>IntegrityError\<close> for a hash that is in the table, which is
      caught: the pair is skipped. The second \<open>INSERT\<close> raises an error that is not
      caught when the vector has not 768 components or the id is taken; the row of the
      first \<open>INSERT\<close> is then in the table.\<close>
  "upsert_loop st [] inserted = (st, Inr inserted)"
| "upsert_loop st ((chunk, emb) # rest) inserted =
     (if cd_content_hash chunk \<in> get_existing_hashes st then upsert_loop st rest inserted
      else
        (let rid = next_row_id st;
             st1 = st\<lparr>chunks_table := chunks_table st @
                         [\<lparr>row_id = rid, row_source_file = cd_source_file chunk,
                           row_heading = cd_heading chunk, row_content = cd_content chunk,
                           row_content_hash = cd_content_hash chunk\<rparr>],
                      sqlite_sequence := rid\<rparr>
         in if length emb \<noteq> EMBEDDING_DIM
            then (st1, Inl (OperationalError ''Dimension mismatch for inserted vector''))
            else if rid \<in> fst ` set (vec_chunks st1)
            then (st1, Inl (OperationalError ''UNIQUE constraint failed on vec_chunks primary key''))
            else upsert_loop (st1\<lparr>vec_chunks := vec_chunks st1 @ [(rid, emb)]\<rparr>) rest
                   (Suc inserted)))"

definition upsert_chunks ::
  "EmbeddingStore \<Rightarrow> chunk_dict list \<Rightarrow> rat list list \<Rightarrow> EmbeddingStore \<times> (exn + nat)"
where
  \<comment> \<open>\<open>upsert_chunks(chunks, embeddings)\<close>: the new state of the database and the
      returned count, or the exception.\<close>
  "upsert_chunks st cs embeddings = upsert_loop st (zip cs embeddings) 0"

text \<open>
  In the words of the spec: of the chunks handed over, those are inserted whose
  fingerprint is not already present, each fingerprint once.
\<close>

fun new_chunks :: "string set \<Rightarrow> chunk_dict list \<Rightarrow> chunk_dict list" where
  "new_chunks present [] = []"
| "new_chunks present (c # cs) =
     (if cd_content_hash c \<in> present then new_chunks present cs
      else c # new_chunks (insert (cd_content_hash c) present) cs)"

definition row_dict :: "chunk_row \<Rightarrow> chunk_dict" where
  \<comment> \<open>What a row stores of its chunk.\<close>
  "row_dict r =
     \<lparr>cd_source_file = row_source_file r, cd_heading = row_heading r,
      cd_content = row_content r, cd_content_hash = row_content_hash r\<rparr>"

definition store_ok :: "EmbeddingStore \<Rightarrow> bool" where
  \<comment> \<open>Every id of the vector table was given out by the table \<open>chunks\<close>.\<close>
  "store_ok st = (\<forall>i \<in> fst ` set (vec_chunks st). i < next_row_id st)"

definition empty_store :: EmbeddingStore where
  \<comment> \<open>The database after \<open>_init_tables\<close> on a new file.\<close>
  "empty_store = \<lparr>chunks_table = [], vec_chunks = [], sqlite_sequence = 0\<rparr>"

definition hello_chunk :: chunk_dict where
  \<comment> \<open>A chunk whose fingerprint is made with the identity in the place of SHA-256.\<close>
  "hello_chunk =
     \<lparr>cd_source_file = ''test.md'', cd_heading = ''A'', cd_content = ''hello'',
      cd_content_hash = content_hash (\<lambda>s. s) ''test.md'' ''A'' ''hello''\<rparr>"


section \<open>Properties of session rotation\<close>

text \<open>
  Claim C2. If, under the lock, the elapsed idle time of the chat is below the configured
  idle timeout, rotation returns without effect: the session map and the activity map
  are unchanged, no collaborator is called (no curation, no flush, no deletion, no
  creation), and no exception leaves the function. The only change is that the chat has
  a lock object afterwards.
\<close>

theorem rotate_session_skips_active:
  assumes "idle_elapsed d c now < session_idle_timeout cfg"
  shows "rotate_session w cfg now d c = (d\<lparr>chat_locks := insert c (chat_locks d)\<rparr>, [], None)
       \<and> sessions (fst (rotate_session w cfg now d c)) = sessions d
       \<and> last_activity (fst (rotate_session w cfg now d c)) = last_activity d
       \<and> fst (snd (rotate_session w cfg now d c)) = []"
  using assms by (simp add: rotate_session_def get_lock_def idle_elapsed_def)

theorem rotate_session_skips_active_witness:
  "idle_elapsed idle_dispatcher ''chat1'' (1001 / 10) < session_idle_timeout example_settings
   \<and> rotate_session failing_world example_settings (1001 / 10) idle_dispatcher ''chat1''
       = (idle_dispatcher\<lparr>chat_locks := {''chat1''}\<rparr>, [], None)"
proof -
  have h: "idle_elapsed idle_dispatcher ''chat1'' (1001 / 10) < session_idle_timeout example_settings"
    by (simp add: idle_elapsed_def idle_dispatcher_def example_settings_def)
  from rotate_session_skips_active [OF h, of failing_world] h show ?thesis
    by (simp add: idle_dispatcher_def)
qed










text \<open>
  Claim C9, as stated, fails when the configured idle timeout is not positive: a chat
  with a session and no activity entry has elapsed time zero, which is not below a
  timeout of zero, so rotation proceeds (it deletes the old session and installs a new
  one) and the final removal of the activity entry raises \<open>KeyError\<close>.
\<close>

theorem rotate_session_missing_activity_counterexample:
  "last_activity untracked_dispatcher ''chat1'' = None
   \<and> \<not> idle_elapsed untracked_dispatcher ''chat1'' 5
         < session_idle_timeout (example_settings\<lparr>session_idle_timeout := 0\<rparr>)
   \<and> deletions (fst (snd (rotate_session failing_world
         (example_settings\<lparr>session_idle_timeout := 0\<rparr>) 5 untracked_dispatcher ''chat1'')))
       = [(''adk-claw'', ''chat1'', ''session-1'')]
   \<and> snd (snd (rotate_session failing_world
         (example_settings\<lparr>session_idle_timeout := 0\<rparr>) 5 untracked_dispatcher ''chat1''))
       = Some (KeyError ''chat1'')"
  by (simp add: rotate_session_def get_lock_def idle_elapsed_def Let_def untracked_dispatcher_def
      example_settings_def failing_world_def curate_step_def flush_step_def delete_step_def)

text \<open>
  Claim C9, amended. When the configured idle timeout is positive: a chat with no
  activity entry is treated as idle for zero seconds and rotation is skipped; hence
  whenever rotation proceeds past the re-check the chat's activity entry exists, and the
  removal of that entry never raises: the only exception that can leave rotation is one
  raised by the creation of the new session.
\<close>

theorem rotate_session_activity_entry_present:
  assumes "0 < session_idle_timeout cfg"
  shows "(last_activity d c = None \<longrightarrow>
            rotate_session w cfg now d c = (d\<lparr>chat_locks := insert c (chat_locks d)\<rparr>, [], None))
       \<and> (\<not> idle_elapsed d c now < session_idle_timeout cfg \<longrightarrow> last_activity d c \<noteq> None)
       \<and> (\<forall>new. create_session w (app_name cfg) c = Inr new \<longrightarrow>
            snd (snd (rotate_session w cfg now d c)) = None)"
  using assms
  by (auto simp add: rotate_session_def get_lock_def idle_elapsed_def Let_def
      split: option.splits sum.splits)

theorem rotate_session_activity_entry_present_witness:
  "0 < session_idle_timeout example_settings
   \<and> last_activity untracked_dispatcher ''chat1'' = None
   \<and> rotate_session failing_world example_settings 5 untracked_dispatcher ''chat1''
       = (untracked_dispatcher\<lparr>chat_locks := {''chat1''}\<rparr>, [], None)
   \<and> \<not> idle_elapsed idle_dispatcher ''chat1'' 101 < session_idle_timeout example_settings
   \<and> last_activity idle_dispatcher ''chat1'' \<noteq> None
   \<and> create_session failing_world (app_name example_settings) ''chat1''
       = Inr \<lparr>sid = ''session-2''\<rparr>
   \<and> snd (snd (rotate_session failing_world example_settings 101 idle_dispatcher ''chat1''))
       = None"
proof -
  have h: "0 < session_idle_timeout example_settings"
    by (simp add: example_settings_def)
  have u: "last_activity untracked_dispatcher ''chat1'' = None"
    by (simp add: untracked_dispatcher_def)
  have i: "\<not> idle_elapsed idle_dispatcher ''chat1'' 101 < session_idle_timeout example_settings"
    by (simp add: idle_elapsed_def idle_dispatcher_def example_settings_def)
  have n: "create_session failing_world (app_name example_settings) ''chat1''
             = Inr \<lparr>sid = ''session-2''\<rparr>"
    by (simp add: failing_world_def)
  from rotate_session_activity_entry_present [OF h, of untracked_dispatcher "''chat1''" failing_world 5]
       rotate_session_activity_entry_present [OF h, of idle_dispatcher "''chat1''" failing_world 101]
       h u i n
  show ?thesis
    by (simp add: untracked_dispatcher_def)
qed

section \<open>Properties of work-item processing\<close>

lemma replies_append: "replies (xs @ ys) = replies xs @ replies ys"
  by (induction xs rule: replies.induct) simp_all

lemma consume_events_fst: "fst (consume_events evs fin acc) = fst (consume_events evs None acc)"
  by (induction evs fin acc rule: consume_events.induct) simp_all

lemma consume_events_raises: "snd (consume_events evs (Some e) acc) \<noteq> None"
  by (induction evs "Some e" acc rule: consume_events.induct) simp_all

lemma join_snoc: "join sep (xs @ [a]) = (if xs = [] then a else join sep xs @ sep @ a)"
  by (induction sep xs rule: join.induct) simp_all

lemma strip_keeps_suffix:
  assumes "a \<noteq> []" "\<not> is_space (hd a)" "\<not> is_space (last a)"
  shows "strip (q @ a) = dropWhile is_space q @ a"
proof -
  have l: "dropWhile is_space (q @ a) = dropWhile is_space q @ a"
    using assms by (induction q) (auto simp: neq_Nil_conv)
  have "dropWhile is_space (rev a) = rev a"
    using assms by (cases a rule: rev_cases) auto
  then have "dropWhile is_space (rev (dropWhile is_space q @ a)) = rev (dropWhile is_space q @ a)"
    using assms by (cases a rule: rev_cases) auto
  with l show ?thesis by (simp add: strip_def)
qed

lemma APOLOGY_shape: "APOLOGY \<noteq> [] \<and> \<not> is_space (hd APOLOGY) \<and> \<not> is_space (last APOLOGY)"
  by (simp add: APOLOGY_def is_space_def)

lemma strip_with_apology:
  "strip (join sep (xs @ [APOLOGY])) =
     (if xs = [] then APOLOGY else dropWhile is_space (join sep xs @ sep) @ APOLOGY)"
  using strip_keeps_suffix [of APOLOGY "join sep xs @ sep"] strip_keeps_suffix [of APOLOGY "[]"]
    APOLOGY_shape
  by (simp add: join_snoc)

text \<open>
  Claim C4, as stated, fails when the agent has produced text before it raises: the
  fragments collected so far stay in the reply and the apology is appended to them, so
  the reply is not the apology alone.
\<close>

theorem process_reply_not_only_apology_counterexample:
  "snd (run_async failing_world ''chat1'' ''session-1'' (combine_messages (messages hello_item)))
     = Some (Exception ''boom'')
   \<and> replies (fst (snd (process failing_world example_settings 101 idle_dispatcher hello_item)))
     = [(''chat1'', ''Partial answer'' @ ''\<newline>'' @ APOLOGY)]
   \<and> replies (fst (snd (process failing_world example_settings 101 idle_dispatcher hello_item)))
     \<noteq> [(''chat1'', APOLOGY)]"
  by (simp add: process_def get_lock_def Let_def failing_world_def idle_dispatcher_def
      hello_item_def example_settings_def combine_messages_def strip_def is_space_def APOLOGY_def)

text \<open>
  Claim C4, amended. When the agent run raises, the exception is caught: what leaves
  \<open>_process\<close> is only what the reply sender does. Exactly one reply is sent; its text is
  the fragments collected before the exception, one per line, followed by the generic
  apology, the whole trimmed. It is the apology alone when no fragment was collected,
  and it always ends with the apology. The text does not depend on the exception.
\<close>

theorem process_agent_failure:
  assumes sess: "sessions d (chat_id item) = Some s
             \<or> (sessions d (chat_id item) = None
                \<and> create_session w (app_name cfg) (chat_id item) = Inr obj \<and> sid obj = s)"
    and run: "run_async w (chat_id item) s (combine_messages (messages item)) = (evs, Some e)"
  shows "\<exists>d' calls reply.
           process w cfg now d item = (d', calls, send_reply w (chat_id item) reply)
         \<and> replies calls = [(chat_id item, reply)]
         \<and> reply = strip (join ''\<newline>'' (fst (consume_events evs None []) @ [APOLOGY]))
         \<and> (fst (consume_events evs None []) = [] \<longrightarrow> reply = APOLOGY)
         \<and> (\<exists>p. reply = p @ APOLOGY)"
proof -
  obtain collected raised where ce: "consume_events evs (Some e) [] = (collected, raised)"
    by (cases "consume_events evs (Some e) []")
  from consume_events_raises [of evs e "[]"] ce obtain e' where r: "raised = Some e'"
    by auto
  from consume_events_fst [of evs "Some e" "[]"] ce
  have c: "fst (consume_events evs None []) = collected" by simp
  define reply where "reply = strip (join ''\<newline>'' (collected @ [APOLOGY]))"
  have shape: "reply = (if collected = [] then APOLOGY
                        else dropWhile is_space (join ''\<newline>'' collected @ ''\<newline>'') @ APOLOGY)"
    unfolding reply_def by (rule strip_with_apology)
  have ne: "reply \<noteq> []" using shape APOLOGY_shape by auto
  from sess show ?thesis
  proof
    assume "sessions d (chat_id item) = Some s"
    then show ?thesis
      using run ce r c ne shape
      by (simp add: process_def get_lock_def Let_def reply_def [symmetric] replies_append)
  next
    assume "sessions d (chat_id item) = None
            \<and> create_session w (app_name cfg) (chat_id item) = Inr obj \<and> sid obj = s"
    then show ?thesis
      using run ce r c ne shape
      by (simp add: process_def get_lock_def Let_def reply_def [symmetric] replies_append)
  qed
qed

theorem process_agent_failure_witness:
  "(sessions idle_dispatcher (chat_id hello_item) = Some ''session-1''
      \<or> (sessions idle_dispatcher (chat_id hello_item) = None
          \<and> create_session failing_world (app_name example_settings) (chat_id hello_item)
              = Inr \<lparr>sid = ''session-2''\<rparr> \<and> sid \<lparr>sid = ''session-2''\<rparr> = ''session-1''))
   \<and> run_async failing_world (chat_id hello_item) ''session-1''
        (combine_messages (messages hello_item))
      = ([Event (Some (Content (Some [Part (Some ''Partial answer'')])))], Some (Exception ''boom''))
   \<and> (\<exists>d' calls reply.
         process failing_world example_settings 101 idle_dispatcher hello_item
           = (d', calls, send_reply failing_world (chat_id hello_item) reply)
       \<and> replies calls = [(chat_id hello_item, reply)]
       \<and> (\<exists>p. reply = p @ APOLOGY))"
proof -
  have h1: "sessions idle_dispatcher (chat_id hello_item) = Some ''session-1''
      \<or> (sessions idle_dispatcher (chat_id hello_item) = None
          \<and> create_session failing_world (app_name example_settings) (chat_id hello_item)
              = Inr \<lparr>sid = ''session-2''\<rparr> \<and> sid \<lparr>sid = ''session-2''\<rparr> = ''session-1'')"
    by (simp add: idle_dispatcher_def hello_item_def)
  have h2: "run_async failing_world (chat_id hello_item) ''session-1''
        (combine_messages (messages hello_item))
      = ([Event (Some (Content (Some [Part (Some ''Partial answer'')])))], Some (Exception ''boom''))"
    by (simp add: failing_world_def)
  from process_agent_failure [OF h1 h2, where now = 101] h1 h2 show ?thesis
    by blast
qed


section \<open>Properties of the debounce queue\<close>

lemma run_queue_append:
  "run_queue q (xs @ ys) =
     (case run_queue q xs of (q', bs) \<Rightarrow> (case run_queue q' ys of (q'', bs') \<Rightarrow> (q'', bs @ bs')))"
  by (induction q xs rule: run_queue.induct) (auto split: prod.splits option.splits)

lemma run_queue_no_sleeper:
  assumes "\<forall>t \<in> set ts. tasks q t \<noteq> Some Sleeping"
  shows "run_queue q (elapses c ts) = (q, [])"
  using assms
proof (induction ts)
  case Nil
  then show ?case by (simp add: elapses_def)
next
  case (Cons t ts)
  then have "debounce_fire q t c = (q, None)"
    by (auto simp: debounce_fire_def split: option.splits task_status.splits)
  with Cons show ?case by (simp add: elapses_def)
qed

lemma debounce_fire_delivers:
  assumes "tasks q t = Some Sleeping" and "buffers q c = Some b" and "b \<noteq> []"
  shows "debounce_fire q t c =
           (q\<lparr>buffers := (buffers q)(c := None), timers := (timers q)(c := None),
              tasks := (tasks q)(t \<mapsto> Finished), locks := insert c (locks q)\<rparr>, Some (c, b))"
  using assms by (simp add: debounce_fire_def Let_def)

lemma debounce_fire_cancelled:
  "tasks q t = Some Cancelled \<Longrightarrow> debounce_fire q t c = (q, None)"
  by (simp add: debounce_fire_def)

lemma run_queue_within_window:
  assumes "within_window c n (length ms) evs"
    and "ms \<noteq> []"
    and "buffers q c = Some ms"
    and "next_task q = n + length ms"
    and "timers q c = Some (n + length ms - 1)"
    and "tasks q (n + length ms - 1) = Some Sleeping"
    and "\<forall>t. n \<le> t \<and> Suc t < n + length ms \<longrightarrow> tasks q t = Some Cancelled"
  shows "snd (run_queue q evs) = []
       \<and> buffers (fst (run_queue q evs)) c = Some (ms @ messages_of evs)
       \<and> next_task (fst (run_queue q evs)) = n + length (ms @ messages_of evs)
       \<and> timers (fst (run_queue q evs)) c = Some (n + length (ms @ messages_of evs) - 1)
       \<and> tasks (fst (run_queue q evs)) (n + length (ms @ messages_of evs) - 1) = Some Sleeping
       \<and> (\<forall>t. n \<le> t \<and> Suc t < n + length (ms @ messages_of evs) \<longrightarrow>
             tasks (fst (run_queue q evs)) t = Some Cancelled)"
  using assms
proof (induction evs arbitrary: q ms)
  case Nil
  then show ?case by simp
next
  case (Cons ev evs)
  show ?case
  proof (cases ev)
    case (Push c' tx user ts)
    from Cons.prems(1) Push have cc: "c' = c" and w: "within_window c n (Suc (length ms)) evs"
      by simp_all
    define m where "m = \<lparr>qm_chat_id = c, qm_text = tx, qm_user_name = user, qm_timestamp = ts\<rparr>"
    define q1 where "q1 = push q c tx user ts"
    have lp: "0 < length ms" using Cons.prems(2) by simp
    have w1: "within_window c n (length (ms @ [m])) evs" using w by simp
    have ne1: "ms @ [m] \<noteq> []" by simp
    have b1: "buffers q1 c = Some (ms @ [m])"
      using Cons.prems(3) by (simp add: q1_def push_def Let_def m_def)
    have n1: "next_task q1 = n + length (ms @ [m])"
      using Cons.prems(4) by (simp add: q1_def push_def Let_def)
    have t1: "timers q1 c = Some (n + length (ms @ [m]) - 1)"
      using Cons.prems(4) by (simp add: q1_def push_def Let_def)
    have s1: "tasks q1 (n + length (ms @ [m]) - 1) = Some Sleeping"
      using Cons.prems(4) by (simp add: q1_def push_def Let_def)
    have k1: "\<forall>t. n \<le> t \<and> Suc t < n + length (ms @ [m]) \<longrightarrow> tasks q1 t = Some Cancelled"
    proof (intro allI impI)
      fix t assume a: "n \<le> t \<and> Suc t < n + length (ms @ [m])"
      show "tasks q1 t = Some Cancelled"
      proof (cases "t = n + length ms - 1")
        case True
        have "n + length ms - 1 \<noteq> n + length ms" using lp by linarith
        with True show ?thesis
          using Cons.prems(4,5,6) by (simp add: q1_def push_def Let_def cancel_def)
      next
        case False
        with a lp have "n \<le> t \<and> Suc t < n + length ms" by simp linarith
        with Cons.prems(7) have "tasks q t = Some Cancelled" by blast
        then show ?thesis
          using Cons.prems(4,5,6) False a
          by (simp add: q1_def push_def Let_def cancel_def)
      qed
    qed
    have r: "run_queue q (ev # evs) = run_queue q1 evs"
      by (simp add: Push cc q1_def)
    have ms: "messages_of (ev # evs) = m # messages_of evs"
      by (simp add: Push cc m_def)
    from Cons.IH [OF w1 ne1 b1 n1 t1 s1 k1] show ?thesis
      unfolding r ms by simp
  next
    case (Elapsed t c')
    from Cons.prems(1) Elapsed have cc: "c' = c" and t: "n \<le> t \<and> Suc t < n + length ms"
      and w: "within_window c n (length ms) evs"
      by simp_all
    from t Cons.prems(7) have "tasks q t = Some Cancelled" by blast
    then have "debounce_fire q t c = (q, None)" by (rule debounce_fire_cancelled)
    then have r: "run_queue q (ev # evs) = run_queue q evs"
      by (simp add: Elapsed cc)
    have ms: "messages_of (ev # evs) = messages_of evs"
      by (simp add: Elapsed)
    from Cons.IH [OF w Cons.prems(2-7)] show ?thesis
      unfolding r ms .
  qed
qed

lemma run_queue_burst:
  assumes win: "within_window c (next_task q) 0 evs"
    and ne: "messages_of evs \<noteq> []"
    and idle: "buffers q c = None"
  shows "snd (run_queue q evs) = []
       \<and> buffers (fst (run_queue q evs)) c = Some (messages_of evs)
       \<and> next_task (fst (run_queue q evs)) = next_task q + length (messages_of evs)
       \<and> timers (fst (run_queue q evs)) c = Some (next_task q + length (messages_of evs) - 1)
       \<and> tasks (fst (run_queue q evs)) (next_task q + length (messages_of evs) - 1) = Some Sleeping
       \<and> (\<forall>t. next_task q \<le> t \<and> Suc t < next_task q + length (messages_of evs) \<longrightarrow>
             tasks (fst (run_queue q evs)) t = Some Cancelled)"
proof (cases evs)
  case Nil
  with ne show ?thesis by simp
next
  case (Cons ev evs')
  show ?thesis
  proof (cases ev)
    case (Push c' tx user ts)
    from win Cons Push have cc: "c' = c" and w: "within_window c (next_task q) (Suc 0) evs'"
      by simp_all
    define m where "m = \<lparr>qm_chat_id = c, qm_text = tx, qm_user_name = user, qm_timestamp = ts\<rparr>"
    define q1 where "q1 = push q c tx user ts"
    have w1: "within_window c (next_task q) (length [m]) evs'" using w by simp
    have b1: "buffers q1 c = Some [m]"
      using idle by (simp add: q1_def push_def Let_def m_def)
    have n1: "next_task q1 = next_task q + length [m]"
      by (simp add: q1_def push_def Let_def)
    have t1: "timers q1 c = Some (next_task q + length [m] - 1)"
      by (simp add: q1_def push_def Let_def)
    have s1: "tasks q1 (next_task q + length [m] - 1) = Some Sleeping"
      by (simp add: q1_def push_def Let_def)
    have k1: "\<forall>t. next_task q \<le> t \<and> Suc t < next_task q + length [m] \<longrightarrow> tasks q1 t = Some Cancelled"
      by auto
    have r: "run_queue q evs = run_queue q1 evs'"
      by (simp add: Cons Push cc q1_def)
    have ms: "messages_of evs = [m] @ messages_of evs'"
      by (simp add: Cons Push cc m_def)
    from run_queue_within_window [OF w1 _ b1 n1 t1 s1 k1] show ?thesis
      unfolding r ms by simp
  next
    case (Elapsed t c')
    with win Cons have "next_task q \<le> t \<and> Suc t < next_task q" by simp
    then have False by linarith
    then show ?thesis ..
  qed
qed

text \<open>
  Claim C3. Let a chat have nothing buffered, and let a burst of pushes to it arrive
  within the debounce window: every push but the first is executed before the sleep of
  the timer of the push before it is over, and sleeps of the superseded timers may end
  at any moment between the later pushes. Each push cancels the timer of the push
  before, so the end of such a sleep delivers nothing: while the burst lasts, no batch
  is handed to the callback, and afterwards only the timer of the last push is still
  sleeping. Whatever timers of the burst then elapse, in whatever order and however
  often, as long as the last one is among them: exactly one batch is handed to the
  callback in the whole run, and it holds the pushed messages in push order. The state in
  which the callback is invoked has neither a buffer nor a timer for the chat, so a
  message pushed while the callback runs starts a new buffer and a new timer.
\<close>

theorem debounce_burst_one_batch:
  assumes win: "within_window c (next_task q) 0 evs"
    and ne: "messages_of evs \<noteq> []"
    and idle: "buffers q c = None"
    and created: "set ts \<subseteq> {next_task q ..< next_task q + length (messages_of evs)}"
    and last_elapses: "next_task q + length (messages_of evs) - 1 \<in> set ts"
  shows "snd (run_queue q evs) = []
       \<and> snd (run_queue q (evs @ elapses c ts)) = [(c, messages_of evs)]
       \<and> (\<exists>q2. debounce_fire (fst (run_queue q evs)) (next_task q + length (messages_of evs) - 1) c
                  = (q2, Some (c, messages_of evs))
              \<and> buffers q2 c = None \<and> timers q2 c = None
              \<and> (\<forall>tx user t.
                    buffers (push q2 c tx user t) c
                      = Some [\<lparr>qm_chat_id = c, qm_text = tx, qm_user_name = user, qm_timestamp = t\<rparr>]
                  \<and> timers (push q2 c tx user t) c = Some (next_task q2)
                  \<and> tasks (push q2 c tx user t) (next_task q2) = Some Sleeping))"
proof -
  define q1 where "q1 = fst (run_queue q evs)"
  define tl where "tl = next_task q + length (messages_of evs) - 1"
  note st = run_queue_burst [OF win ne idle]
  have q1: "run_queue q evs = (q1, [])"
    using st by (simp add: q1_def prod_eq_iff)
  from st have
    b: "buffers q1 c = Some (messages_of evs)"
    and s: "tasks q1 tl = Some Sleeping"
    and k: "\<forall>t. next_task q \<le> t \<and> Suc t < next_task q + length (messages_of evs) \<longrightarrow> tasks q1 t = Some Cancelled"
    unfolding q1_def tl_def by simp_all
  have lp: "0 < length (messages_of evs)" using ne by simp
  define q2 where "q2 = q1\<lparr>buffers := (buffers q1)(c := None), timers := (timers q1)(c := None),
              tasks := (tasks q1)(tl \<mapsto> Finished), locks := insert c (locks q1)\<rparr>"
  have fire: "debounce_fire q1 tl c = (q2, Some (c, messages_of evs))"
    unfolding q2_def by (rule debounce_fire_delivers [OF s b ne])
  from last_elapses obtain pre post where
    ts: "ts = pre @ tl # post" and pre: "tl \<notin> set pre"
    unfolding tl_def [symmetric] by (meson split_list_first)
  have range: "\<forall>t \<in> set ts. next_task q \<le> t \<and> t \<le> tl"
  proof
    fix t assume "t \<in> set ts"
    with created have "next_task q \<le> t \<and> t < next_task q + length (messages_of evs)" by auto
    then show "next_task q \<le> t \<and> t \<le> tl" unfolding tl_def by linarith
  qed
  have old: "\<And>t. next_task q \<le> t \<Longrightarrow> t \<le> tl \<Longrightarrow> t \<noteq> tl \<Longrightarrow> tasks q1 t = Some Cancelled"
  proof -
    fix t assume "next_task q \<le> t" "t \<le> tl" "t \<noteq> tl"
    then have "next_task q \<le> t \<and> Suc t < next_task q + length (messages_of evs)"
      using lp unfolding tl_def by linarith
    with k show "tasks q1 t = Some Cancelled" by blast
  qed
  have "\<forall>t \<in> set pre. tasks q1 t \<noteq> Some Sleeping"
  proof
    fix t assume a: "t \<in> set pre"
    with range ts have "next_task q \<le> t \<and> t \<le> tl" by auto
    moreover from a pre have "t \<noteq> tl" by auto
    ultimately show "tasks q1 t \<noteq> Some Sleeping" using old [of t] by simp
  qed
  then have r1: "run_queue q1 (elapses c pre) = (q1, [])"
    by (rule run_queue_no_sleeper)
  have "\<forall>t \<in> set post. tasks q2 t \<noteq> Some Sleeping"
  proof
    fix t assume "t \<in> set post"
    with range ts have "next_task q \<le> t \<and> t \<le> tl" by auto
    then show "tasks q2 t \<noteq> Some Sleeping"
      using old [of t] by (cases "t = tl") (auto simp: q2_def)
  qed
  then have r2: "run_queue q2 (elapses c post) = (q2, [])"
    by (rule run_queue_no_sleeper)
  have el: "elapses c ts = elapses c pre @ Elapsed tl c # elapses c post"
    by (simp add: ts elapses_def)
  have Z: "snd (run_queue q evs) = []" using q1 by simp
  have A: "snd (run_queue q (evs @ elapses c ts)) = [(c, messages_of evs)]"
    by (simp add: run_queue_append q1 el r1 fire r2)
  have B: "buffers q2 c = None \<and> timers q2 c = None"
    by (simp add: q2_def)
  have C: "\<forall>tx user t.
              buffers (push q2 c tx user t) c
                = Some [\<lparr>qm_chat_id = c, qm_text = tx, qm_user_name = user, qm_timestamp = t\<rparr>]
            \<and> timers (push q2 c tx user t) c = Some (next_task q2)
            \<and> tasks (push q2 c tx user t) (next_task q2) = Some Sleeping"
    using B by (simp add: push_def Let_def)
  from Z A fire B C show ?thesis
    unfolding q1_def tl_def by blast
qed


theorem debounce_burst_one_batch_witness:
  "within_window ''chat1'' (next_task empty_queue) 0
     [Push ''chat1'' ''msg1'' ''Alice'' 0, Push ''chat1'' ''msg2'' ''Alice'' 1,
      Elapsed 0 ''chat1'', Push ''chat1'' ''msg3'' ''Alice'' 2, Elapsed 1 ''chat1'']
   \<and> buffers empty_queue ''chat1'' = None
   \<and> set [0, 2, 1] \<subseteq> {next_task empty_queue ..< next_task empty_queue + 3}
   \<and> next_task empty_queue + 3 - 1 \<in> set [0, 2, 1 :: nat]
   \<and> snd (run_queue empty_queue
        ([Push ''chat1'' ''msg1'' ''Alice'' 0, Push ''chat1'' ''msg2'' ''Alice'' 1,
          Elapsed 0 ''chat1'', Push ''chat1'' ''msg3'' ''Alice'' 2, Elapsed 1 ''chat1'']
         @ elapses ''chat1'' [0, 2, 1]))
      = [(''chat1'',
          [\<lparr>qm_chat_id = ''chat1'', qm_text = ''msg1'', qm_user_name = ''Alice'', qm_timestamp = 0\<rparr>,
           \<lparr>qm_chat_id = ''chat1'', qm_text = ''msg2'', qm_user_name = ''Alice'', qm_timestamp = 1\<rparr>,
           \<lparr>qm_chat_id = ''chat1'', qm_text = ''msg3'', qm_user_name = ''Alice'', qm_timestamp = 2\<rparr>])]"
proof -
  let ?evs = "[Push ''chat1'' ''msg1'' ''Alice'' 0, Push ''chat1'' ''msg2'' ''Alice'' 1,
      Elapsed 0 ''chat1'', Push ''chat1'' ''msg3'' ''Alice'' 2, Elapsed 1 ''chat1'']"
  have h1: "within_window ''chat1'' (next_task empty_queue) 0 ?evs"
    by (simp add: empty_queue_def)
  have h2: "messages_of ?evs \<noteq> []" by simp
  have h3: "buffers empty_queue ''chat1'' = None" by (simp add: empty_queue_def)
  have h4: "set [0, 2, 1] \<subseteq> {next_task empty_queue ..< next_task empty_queue + length (messages_of ?evs)}"
    by (simp add: empty_queue_def)
  have h5: "next_task empty_queue + length (messages_of ?evs) - 1 \<in> set [0, 2, 1 :: nat]"
    by (simp add: empty_queue_def)
  from debounce_burst_one_batch [OF h1 h2 h3 h4 h5] h1 h3 h4 h5 show ?thesis
    by simp
qed

lemma debounce_fire_batch:
  "snd (debounce_fire q t c) = Some (c', ms) \<Longrightarrow> c' = c \<and> ms \<noteq> []"
  by (auto simp: debounce_fire_def Let_def split: option.splits task_status.splits if_splits)

lemma run_queue_batches_nonempty:
  "(c', ms) \<in> set (snd (run_queue q evs)) \<Longrightarrow> ms \<noteq> []"
proof (induction evs arbitrary: q)
  case Nil
  then show ?case by simp
next
  case (Cons ev evs)
  show ?case
  proof (cases ev)
    case (Push c tx user ts)
    with Cons show ?thesis by simp
  next
    case (Elapsed t c)
    obtain q' r where f: "debounce_fire q t c = (q', r)" by (cases "debounce_fire q t c")
    show ?thesis
    proof (cases r)
      case None
      with Cons Elapsed f show ?thesis by simp
    next
      case (Some batch)
      obtain c0 ms0 where batch: "batch = (c0, ms0)" by (cases batch)
      obtain q'' bs where rest: "run_queue q' evs = (q'', bs)" by (cases "run_queue q' evs")
      from f Some batch debounce_fire_batch [of q t c c0 ms0] have h: "ms0 \<noteq> []" by simp
      from Cons.prems Elapsed f Some batch rest
      have "(c', ms) = (c0, ms0) \<or> (c', ms) \<in> set (snd (run_queue q' evs))" by auto
      then show ?thesis using h Cons.IH [of q'] by auto
    qed
  qed
qed

text \<open>
  Claim C10. The callback is never invoked with an empty message list: a firing that
  invokes it does so for its own chat with a non-empty list; a firing that finds the
  chat's buffer missing or empty invokes nothing; hence no batch delivered in any run of
  the queue is empty.
\<close>

theorem debounce_fire_never_empty_batch:
  "(\<forall>c' ms. snd (debounce_fire q t c) = Some (c', ms) \<longrightarrow> c' = c \<and> ms \<noteq> [])
   \<and> ((buffers q c = None \<or> buffers q c = Some []) \<longrightarrow> snd (debounce_fire q t c) = None)
   \<and> (\<forall>(c', ms) \<in> set (snd (run_queue q evs)). ms \<noteq> [])"
proof -
  have "(buffers q c = None \<or> buffers q c = Some []) \<longrightarrow> snd (debounce_fire q t c) = None"
    by (auto simp: debounce_fire_def Let_def split: option.splits task_status.splits)
  then show ?thesis
    using debounce_fire_batch [of q t c] run_queue_batches_nonempty [of _ _ q evs] by blast
qed

theorem debounce_fire_never_empty_batch_witness:
  "buffers empty_queue ''chat1'' = None
   \<and> snd (debounce_fire empty_queue 0 ''chat1'') = None
   \<and> snd (debounce_fire (push empty_queue ''chat1'' ''hello'' ''Alice'' 0) 0 ''chat1'')
       = Some (''chat1'', [\<lparr>qm_chat_id = ''chat1'', qm_text = ''hello'', qm_user_name = ''Alice'',
                             qm_timestamp = 0\<rparr>])
   \<and> snd (run_queue empty_queue
        [Push ''chat1'' ''hello'' ''Alice'' 0, Elapsed 0 ''chat1'', Elapsed 0 ''chat1''])
       = [(''chat1'', [\<lparr>qm_chat_id = ''chat1'', qm_text = ''hello'', qm_user_name = ''Alice'',
                          qm_timestamp = 0\<rparr>])]"
proof -
  have h: "buffers empty_queue ''chat1'' = None" by (simp add: empty_queue_def)
  from debounce_fire_never_empty_batch [of empty_queue 0 "''chat1''" "[]"] h
  have a: "snd (debounce_fire empty_queue 0 ''chat1'') = None" by blast
  have b: "snd (debounce_fire (push empty_queue ''chat1'' ''hello'' ''Alice'' 0) 0 ''chat1'')
       = Some (''chat1'', [\<lparr>qm_chat_id = ''chat1'', qm_text = ''hello'', qm_user_name = ''Alice'',
                             qm_timestamp = 0\<rparr>])"
    by (simp add: debounce_fire_def push_def empty_queue_def Let_def)
  have c: "snd (run_queue empty_queue
        [Push ''chat1'' ''hello'' ''Alice'' 0, Elapsed 0 ''chat1'', Elapsed 0 ''chat1''])
       = [(''chat1'', [\<lparr>qm_chat_id = ''chat1'', qm_text = ''hello'', qm_user_name = ''Alice'',
                          qm_timestamp = 0\<rparr>])]"
    by (simp add: debounce_fire_def push_def empty_queue_def Let_def)
  from h a b c show ?thesis by simp
qed


section \<open>Properties of chunking\<close>

lemma strip_Nil: "strip [] = []"
  by (simp add: strip_def)

lemma flush_chunk_sections:
  "flush_chunk src h cur out = out @ section_chunks src [(h, cur)]"
  by (simp add: flush_chunk_def section_chunks_def Let_def strip_Nil)

lemma split_loop_sections:
  "split_loop src ls h cur out =
     out @ section_chunks src
       ((h, cur @ takeWhile (\<lambda>l. \<not> is_heading l) ls) #
        (case dropWhile (\<lambda>l. \<not> is_heading l) ls of
           [] \<Rightarrow> []
         | l # rest \<Rightarrow> sections is_heading (heading_text l) rest))"
proof (induction ls arbitrary: h cur out)
  case Nil
  then show ?case by (simp add: flush_chunk_sections del: sections.simps)
next
  case (Cons line ls)
  show ?case
  proof (cases "is_heading line")
    case True
    have "split_loop src (line # ls) h cur out
            = split_loop src ls (heading_text line) [] (flush_chunk src h cur out)"
      using True by simp
    also have "\<dots> = (out @ section_chunks src [(h, cur)])
                      @ section_chunks src (sections is_heading (heading_text line) ls)"
      by (subst sections.simps) (simp add: Cons.IH flush_chunk_sections del: sections.simps)
    finally show ?thesis
      using True by (simp add: section_chunks_def del: sections.simps)
  next
    case False
    then show ?thesis by (simp add: Cons.IH del: sections.simps)
  qed
qed

text \<open>
  Claim C6, amended. For every text and source id, \<open>_split_by_headings\<close> splits at
  every line that starts with \<open>#\<close>, whatever the heading level: it returns, in
  order, one chunk per section, a section being a heading (the line without its leading
  \<open>#\<close> characters, trimmed; the empty heading for what precedes the first heading
  line) with the lines up to the next heading line, joined by newlines and trimmed as
  its body; sections whose trimmed body is empty are left out. The input of the spec's
  scenario yields exactly one chunk, with heading \<open>HasContent\<close>.
\<close>

theorem split_by_headings_sections:
  "split_by_headings text src = section_chunks src (sections is_heading [] (splitlines text))
   \<and> split_by_headings ''# Empty\<newline>\<newline># HasContent\<newline>Some text.'' src
       = [\<lparr>source_file = src, heading = ''HasContent'', content = ''Some text.'', score = 0\<rparr>]"
proof -
  have "split_by_headings text src = section_chunks src (sections is_heading [] (splitlines text))"
    by (subst sections.simps)
       (simp add: split_by_headings_def split_loop_sections del: sections.simps)
  moreover have "split_by_headings ''# Empty\<newline>\<newline># HasContent\<newline>Some text.'' src
       = [\<lparr>source_file = src, heading = ''HasContent'', content = ''Some text.'', score = 0\<rparr>]"
    by (simp add: split_by_headings_def splitlines_def is_line_break_def is_heading_def
        heading_text_def flush_chunk_def strip_def is_space_def Let_def)
  ultimately show ?thesis by simp
qed

text \<open>
  Claim C6, as stated, fails: the code does not split at top-level heading lines only.
  A line of a deeper level (\<open>## B\<close>) also ends the current chunk and starts a new
  one, where a split at top-level headings keeps it inside the body of \<open>A\<close>.
\<close>

theorem split_by_headings_sublevel_counterexample:
  "split_by_headings ''# A\<newline>x\<newline>## B\<newline>y'' ''m.md''
     = [\<lparr>source_file = ''m.md'', heading = ''A'', content = ''x'', score = 0\<rparr>,
        \<lparr>source_file = ''m.md'', heading = ''B'', content = ''y'', score = 0\<rparr>]
   \<and> split_by_top_level_headings ''# A\<newline>x\<newline>## B\<newline>y'' ''m.md''
     = [\<lparr>source_file = ''m.md'', heading = ''A'', content = ''x\<newline>## B\<newline>y'', score = 0\<rparr>]
   \<and> split_by_headings ''# A\<newline>x\<newline>## B\<newline>y'' ''m.md''
     \<noteq> split_by_top_level_headings ''# A\<newline>x\<newline>## B\<newline>y'' ''m.md''"
  by (simp add: split_by_headings_def split_by_top_level_headings_def splitlines_def
      is_line_break_def is_heading_def is_top_level_heading_def heading_text_def flush_chunk_def
      section_chunks_def sections.simps strip_def is_space_def Let_def)


section \<open>Properties of search\<close>

lemma map_of_dict_set: "map_of (dict_set d k v) = (map_of d)(k \<mapsto> v)"
  by (induction d k v rule: dict_set.induct) auto

lemma keys_dict_set: "fst ` set (dict_set d k v) = insert k (fst ` set d)"
  by (induction d k v rule: dict_set.induct) auto

lemma distinct_dict_set: "distinct (map fst d) \<Longrightarrow> distinct (map fst (dict_set d k v))"
proof (induction d k v rule: dict_set.induct)
  case (1 k v)
  then show ?case by simp
next
  case (2 k' v' kvs k v)
  then show ?case
    using keys_dict_set [of kvs k v] by (auto simp: image_iff)
qed

lemma dict_get_dict_set:
  "dict_get (dict_set d k v) k' dflt = (if k' = k then v else dict_get d k' dflt)"
  by (simp add: dict_get_def map_of_dict_set)

lemma fuse_list_ok:
  assumes "\<forall>(r, c) \<in> set ps. k + int r \<noteq> 0"
    and "distinct (map fst sc)"
    and "\<forall>key \<in> fst ` set sc. \<exists>c. cm key = Some c \<and> key_of c = key"
  shows "\<exists>sc' cm'. fuse_list k ps (sc, cm) = Inr (sc', cm')
           \<and> distinct (map fst sc')
           \<and> fst ` set sc' = fst ` set sc \<union> key_of ` snd ` set ps
           \<and> (\<forall>key \<in> fst ` set sc'. \<exists>c. cm' key = Some c \<and> key_of c = key)
           \<and> (\<forall>key. dict_get sc' key 0 = dict_get sc key 0
                 + (\<Sum>(r, c) \<leftarrow> ps. if key_of c = key then 1 / of_int (k + int r) else 0))"
  using assms
proof (induction ps arbitrary: sc cm)
  case Nil
  then show ?case by simp
next
  case (Cons p ps)
  obtain r c where p: "p = (r, c)" by (cases p)
  define sc1 where
    "sc1 = dict_set sc (key_of c) (dict_get sc (key_of c) 0 + 1 / of_int (k + int r))"
  define cm1 where "cm1 = cm(key_of c \<mapsto> c)"
  have nz: "k + int r \<noteq> 0" using Cons.prems(1) p by simp
  have step: "fuse_list k (p # ps) (sc, cm) = fuse_list k ps (sc1, cm1)"
    using nz by (simp add: p sc1_def cm1_def)
  have d1: "distinct (map fst sc1)"
    unfolding sc1_def by (rule distinct_dict_set [OF Cons.prems(2)])
  have k1: "fst ` set sc1 = insert (key_of c) (fst ` set sc)"
    unfolding sc1_def by (rule keys_dict_set)
  have i1: "\<forall>key \<in> fst ` set sc1. \<exists>c. cm1 key = Some c \<and> key_of c = key"
    using Cons.prems(3) k1 by (auto simp: cm1_def)
  have r1: "\<forall>(r, c) \<in> set ps. k + int r \<noteq> 0" using Cons.prems(1) by simp
  from Cons.IH [OF r1 d1 i1] obtain sc' cm' where
    res: "fuse_list k ps (sc1, cm1) = Inr (sc', cm')"
    and d: "distinct (map fst sc')"
    and ks: "fst ` set sc' = fst ` set sc1 \<union> key_of ` snd ` set ps"
    and inv: "\<forall>key \<in> fst ` set sc'. \<exists>c. cm' key = Some c \<and> key_of c = key"
    and sums: "\<forall>key. dict_get sc' key 0 = dict_get sc1 key 0
                 + (\<Sum>(r, c) \<leftarrow> ps. if key_of c = key then 1 / of_int (k + int r) else 0)"
    by (elim exE conjE) (rule that)
  have ks': "fst ` set sc' = fst ` set sc \<union> key_of ` snd ` set (p # ps)"
    using ks k1 by (auto simp: p)
  have sums': "\<forall>key. dict_get sc' key 0 = dict_get sc key 0
                 + (\<Sum>(r, c) \<leftarrow> p # ps. if key_of c = key then 1 / of_int (k + int r) else 0)"
    using sums by (simp add: p sc1_def dict_get_dict_set)
  from res d ks' inv sums' show ?case unfolding step by iprover
qed

lemma enumerate_ranks_positive: "(r, c) \<in> set (enumerate 1 l) \<Longrightarrow> 1 \<le> r"
  by (simp add: in_set_enumerate_eq)

lemma fuse_lists_ok:
  assumes "0 \<le> k"
    and "distinct (map fst sc)"
    and "\<forall>key \<in> fst ` set sc. \<exists>c. cm key = Some c \<and> key_of c = key"
  shows "\<exists>sc' cm'. fuse_lists k ls (sc, cm) = Inr (sc', cm')
           \<and> distinct (map fst sc')
           \<and> fst ` set sc' = fst ` set sc \<union> key_of ` (\<Union>l \<in> set ls. set l)
           \<and> (\<forall>key \<in> fst ` set sc'. \<exists>c. cm' key = Some c \<and> key_of c = key)
           \<and> (\<forall>key. dict_get sc' key 0 = dict_get sc key 0 + rrf_score k ls key)"
  using assms(2,3)
proof (induction ls arbitrary: sc cm)
  case Nil
  then show ?case by (simp add: rrf_score_def)
next
  case (Cons l ls)
  have nz: "\<forall>(r, c) \<in> set (enumerate 1 l). k + int r \<noteq> 0"
    using assms(1) enumerate_ranks_positive [of _ _ l] by fastforce
  from fuse_list_ok [OF nz Cons.prems] obtain sc1 cm1 where
    res1: "fuse_list k (enumerate 1 l) (sc, cm) = Inr (sc1, cm1)"
    and d1: "distinct (map fst sc1)"
    and k1: "fst ` set sc1 = fst ` set sc \<union> key_of ` snd ` set (enumerate 1 l)"
    and i1: "\<forall>key \<in> fst ` set sc1. \<exists>c. cm1 key = Some c \<and> key_of c = key"
    and s0: "\<forall>key. dict_get sc1 key 0 = dict_get sc key 0
               + (\<Sum>(r, c) \<leftarrow> enumerate 1 l. if key_of c = key then 1 / of_int (k + int r) else 0)"
    by (elim exE conjE) (rule that)
  have s1: "\<forall>key. dict_get sc1 key 0 = dict_get sc key 0 + rank_contribution k l key"
    using s0 by (simp add: rank_contribution_def)
  have sl: "snd ` set (enumerate 1 l) = set l"
    by (metis map_snd_enumerate set_map)
  from Cons.IH [OF d1 i1] obtain sc' cm' where
    res: "fuse_lists k ls (sc1, cm1) = Inr (sc', cm')"
    and d: "distinct (map fst sc')"
    and ks: "fst ` set sc' = fst ` set sc1 \<union> key_of ` (\<Union>l \<in> set ls. set l)"
    and inv: "\<forall>key \<in> fst ` set sc'. \<exists>c. cm' key = Some c \<and> key_of c = key"
    and sums: "\<forall>key. dict_get sc' key 0 = dict_get sc1 key 0 + rrf_score k ls key"
    by (elim exE conjE) (rule that)
  have "fuse_lists k (l # ls) (sc, cm) = Inr (sc', cm')"
    using res1 res by simp
  moreover have "fst ` set sc' = fst ` set sc \<union> key_of ` (\<Union>l \<in> set (l # ls). set l)"
    using ks k1 sl by auto
  moreover have "\<forall>key. dict_get sc' key 0 = dict_get sc key 0 + rrf_score k (l # ls) key"
    using sums s1 by (simp add: rrf_score_def)
  ultimately show ?case using d inv by iprover
qed

lemma build_fused_ok:
  assumes "\<forall>key \<in> fst ` set xs. \<exists>c. cm key = Some c \<and> key_of c = key"
  shows "build_fused xs cm =
           Inr (map (\<lambda>(key, s). \<lparr>source_file = fst key, heading = fst (snd key),
                                  content = snd (snd key), score = s\<rparr>) xs)"
  using assms by (induction xs) (auto simp: key_of_def)

lemma rrf_fuse_ok:
  assumes "0 \<le> k"
  shows "\<exists>fused. rrf_fuse ls k = Inr fused
           \<and> (\<forall>c \<in> set fused. score c = rrf_score k ls (key_of c))
           \<and> distinct (map key_of fused)
           \<and> key_of ` set fused = key_of ` (\<Union>l \<in> set ls. set l)
           \<and> sorted_wrt (\<lambda>x y. score y \<le> score x) fused"
proof -
  have p1: "distinct (map fst ([] :: (chunk_key \<times> rat) list))" by simp
  have p2: "\<forall>key \<in> fst ` set ([] :: (chunk_key \<times> rat) list).
              \<exists>c. (Map.empty :: chunk_key \<rightharpoonup> MemoryChunk) key = Some c \<and> key_of c = key"
    by simp
  from fuse_lists_ok [OF assms p1 p2, of ls] obtain sc cm where
    res: "fuse_lists k ls ([], Map.empty) = Inr (sc, cm)"
    and d: "distinct (map fst sc)"
    and ks0: "fst ` set sc = fst ` set ([] :: (chunk_key \<times> rat) list)
                \<union> key_of ` (\<Union>l \<in> set ls. set l)"
    and inv: "\<forall>key \<in> fst ` set sc. \<exists>c. cm key = Some c \<and> key_of c = key"
    and sums0: "\<forall>key. dict_get sc key 0 = dict_get [] key 0 + rrf_score k ls key"
    by (elim exE conjE) (rule that)
  have ks: "fst ` set sc = key_of ` (\<Union>l \<in> set ls. set l)" using ks0 by simp
  have sums: "\<forall>key. dict_get sc key 0 = rrf_score k ls key"
    using sums0 by (simp add: dict_get_def)
  define srt where "srt = sort_key (\<lambda>(key, s). - s) sc"
  define mk where "mk = (\<lambda>(key :: chunk_key, s). \<lparr>source_file = fst key, heading = fst (snd key),
                                  content = snd (snd key), score = s\<rparr>)"
  have set_srt: "set srt = set sc" by (simp add: srt_def)
  have inv': "\<forall>key \<in> fst ` set srt. \<exists>c. cm key = Some c \<and> key_of c = key"
    using inv set_srt by simp
  have fused: "rrf_fuse ls k = Inr (map mk srt)"
    unfolding rrf_fuse_def mk_def using build_fused_ok [OF inv'] by (simp add: res srt_def)
  have key_mk: "\<And>x. key_of (mk x) = fst x" by (simp add: mk_def key_of_def split: prod.splits)
  have score_mk: "\<And>x. score (mk x) = snd x" by (simp add: mk_def split: prod.splits)
  have a: "\<forall>c \<in> set (map mk srt). score c = rrf_score k ls (key_of c)"
  proof
    fix c assume "c \<in> set (map mk srt)"
    then obtain key s where x: "(key, s) \<in> set sc" and c: "c = mk (key, s)"
      using set_srt by auto
    from d x have "map_of sc key = Some s" by simp
    then have "dict_get sc key 0 = s" by (simp add: dict_get_def)
    with sums [rule_format, of key] c show "score c = rrf_score k ls (key_of c)"
      by (simp only: key_mk score_mk fst_conv snd_conv)
  qed
  have dsc: "distinct sc \<and> inj_on fst (set sc)" using d by (simp add: distinct_map)
  have "distinct (map fst srt)"
    using dsc set_srt by (simp add: distinct_map srt_def)
  then have b: "distinct (map key_of (map mk srt))"
    by (simp add: key_mk o_def)
  have c: "key_of ` set (map mk srt) = key_of ` (\<Union>l \<in> set ls. set l)"
    using ks set_srt by (simp add: image_image key_mk)
  have "sorted (map (\<lambda>(key, s). - s) srt)"
    unfolding srt_def by (rule sorted_sort_key)
  then have "sorted_wrt (\<lambda>x y. snd y \<le> snd x) srt"
    by (simp add: sorted_map case_prod_beta)
  then have e: "sorted_wrt (\<lambda>x y. score y \<le> score x) (map mk srt)"
    by (simp add: sorted_wrt_map score_mk)
  from fused a b c e show ?thesis by iprover
qed

lemma chunk_with_score:
  "\<lparr>source_file = source_file c, heading = heading c, content = content c, score = s\<rparr>
     = c\<lparr>score := s\<rparr>"
  by simp

lemma rrf_fuse_scenario:
  assumes "key_of a \<noteq> key_of b" "key_of a \<noteq> key_of c" "key_of b \<noteq> key_of c"
  shows "rrf_fuse [[b, a], [c, b]] 60 =
           Inr [b\<lparr>score := 1 / 61 + 1 / 62\<rparr>, c\<lparr>score := 1 / 61\<rparr>, a\<lparr>score := 1 / 62\<rparr>]"
proof -
  have ne: "key_of b \<noteq> key_of a" "key_of c \<noteq> key_of a" "key_of c \<noteq> key_of b"
    using assms by auto
  show ?thesis
    using assms ne by (simp add: rrf_fuse_def dict_get_def chunk_with_score)
qed

lemma py_slice_to_take: "0 \<le> n \<Longrightarrow> py_slice_to n xs = take (nat n) xs"
  by (simp add: py_slice_to_def)

lemma bm25_search_truncated:
  assumes "0 \<le> top_k"
  shows "py_slice_to top_k (bm25_search eng query (top_k * 2)) = bm25_search eng query top_k"
proof -
  have "\<And>xs :: MemoryChunk list.
          py_slice_to top_k (py_slice_to (top_k * 2) xs) = py_slice_to top_k xs"
    using assms by (simp add: py_slice_to_def min_def)
  moreover have "py_slice_to top_k ([] :: MemoryChunk list) = []"
    by (simp add: py_slice_to_def)
  ultimately show ?thesis
    by (simp add: bm25_search_def Let_def split: option.splits)
qed

lemma length_bm25_search: "0 \<le> top_k \<Longrightarrow> length (bm25_search eng query top_k) \<le> nat top_k"
  by (simp add: bm25_search_def Let_def py_slice_to_def split: option.splits)

text \<open>
  Claim C5. For a constant \<open>K\<close> that is not negative, \<open>_rrf_fuse\<close> returns a list (it
  does not raise) in which every chunk carries as score the sum, over the ranked lists,
  of \<open>1 / (K + r)\<close> for each 1-based rank \<open>r\<close> at which a chunk of the same (source file,
  heading, content) stands; there is one chunk per such key, for exactly the keys of the
  input, in descending order of score. When vector search is enabled and returns
  results, \<open>search\<close> fuses the lexical and the vector ranking with \<open>K = 60\<close> and returns
  the fused list cut to \<open>top_k\<close>. For \<open>[[b, a], [c, b]]\<close> with \<open>K = 60\<close> and three
  different keys, \<open>b\<close> comes first with score \<open>1/61 + 1/62\<close>, before \<open>c\<close> (\<open>1/61\<close>) and
  \<open>a\<close> (\<open>1/62\<close>).
\<close>

theorem rrf_fuse_sums_reciprocal_ranks:
  assumes "0 \<le> k"
  shows "(\<exists>fused. rrf_fuse ls k = Inr fused
            \<and> (\<forall>c \<in> set fused. score c = rrf_score k ls (key_of c))
            \<and> distinct (map key_of fused)
            \<and> key_of ` set fused = key_of ` (\<Union>l \<in> set ls. set l)
            \<and> sorted_wrt (\<lambda>x y. score y \<le> score x) fused)
       \<and> (vector_enabled eng \<and> vector_search eng embed_query query (top_k * 2) \<noteq> [] \<longrightarrow>
            (\<exists>fused. rrf_fuse [bm25_search eng query (top_k * 2),
                                 vector_search eng embed_query query (top_k * 2)] 60 = Inr fused
               \<and> search eng embed_query query top_k = Inr (py_slice_to top_k fused)
               \<and> (0 \<le> top_k \<longrightarrow>
                    search eng embed_query query top_k = Inr (take (nat top_k) fused))))
       \<and> (key_of a \<noteq> key_of b \<and> key_of a \<noteq> key_of c \<and> key_of b \<noteq> key_of c \<longrightarrow>
            rrf_fuse [[b, a], [c, b]] 60 =
              Inr [b\<lparr>score := 1 / 61 + 1 / 62\<rparr>, c\<lparr>score := 1 / 61\<rparr>, a\<lparr>score := 1 / 62\<rparr>])"
proof (intro conjI impI)
  show "\<exists>fused. rrf_fuse ls k = Inr fused
            \<and> (\<forall>c \<in> set fused. score c = rrf_score k ls (key_of c))
            \<and> distinct (map key_of fused)
            \<and> key_of ` set fused = key_of ` (\<Union>l \<in> set ls. set l)
            \<and> sorted_wrt (\<lambda>x y. score y \<le> score x) fused"
    by (rule rrf_fuse_ok [OF assms])
next
  assume v: "vector_enabled eng \<and> vector_search eng embed_query query (top_k * 2) \<noteq> []"
  have "(0::int) \<le> 60" by simp
  from rrf_fuse_ok [OF this, of "[bm25_search eng query (top_k * 2),
                                 vector_search eng embed_query query (top_k * 2)]"]
  obtain fused where
    f: "rrf_fuse [bm25_search eng query (top_k * 2),
                  vector_search eng embed_query query (top_k * 2)] 60 = Inr fused"
    by (elim exE conjE) (rule that)
  have s: "search eng embed_query query top_k = Inr (py_slice_to top_k fused)"
    using v f by (simp add: search_def Let_def)
  then have "0 \<le> top_k \<longrightarrow> search eng embed_query query top_k = Inr (take (nat top_k) fused)"
    by (simp add: py_slice_to_take)
  with f s show "\<exists>fused. rrf_fuse [bm25_search eng query (top_k * 2),
                                 vector_search eng embed_query query (top_k * 2)] 60 = Inr fused
               \<and> search eng embed_query query top_k = Inr (py_slice_to top_k fused)
               \<and> (0 \<le> top_k \<longrightarrow>
                    search eng embed_query query top_k = Inr (take (nat top_k) fused))"
    by iprover
next
  assume "key_of a \<noteq> key_of b \<and> key_of a \<noteq> key_of c \<and> key_of b \<noteq> key_of c"
  then show "rrf_fuse [[b, a], [c, b]] 60 =
              Inr [b\<lparr>score := 1 / 61 + 1 / 62\<rparr>, c\<lparr>score := 1 / 61\<rparr>, a\<lparr>score := 1 / 62\<rparr>]"
    using rrf_fuse_scenario [of a b c] by simp
qed

theorem rrf_fuse_sums_reciprocal_ranks_witness:
  "(0::int) \<le> 60
   \<and> vector_enabled hybrid_engine
   \<and> vector_search hybrid_engine (\<lambda>q. Inr []) ''dark mode'' (2 * 2)
       = [chunk_b\<lparr>score := 1 / 2\<rparr>]
   \<and> key_of chunk_a \<noteq> key_of chunk_b \<and> key_of chunk_a \<noteq> key_of chunk_c
   \<and> key_of chunk_b \<noteq> key_of chunk_c
   \<and> rrf_fuse [[chunk_b, chunk_a], [chunk_c, chunk_b]] 60 =
       Inr [chunk_b\<lparr>score := 1 / 61 + 1 / 62\<rparr>, chunk_c\<lparr>score := 1 / 61\<rparr>,
            chunk_a\<lparr>score := 1 / 62\<rparr>]
   \<and> (\<exists>fused. rrf_fuse [bm25_search hybrid_engine ''dark mode'' (2 * 2),
                          vector_search hybrid_engine (\<lambda>q. Inr []) ''dark mode'' (2 * 2)] 60
                 = Inr fused
        \<and> search hybrid_engine (\<lambda>q. Inr []) ''dark mode'' 2 = Inr (take (nat 2) fused))"
proof -
  have h: "(0::int) \<le> 60" by simp
  have e: "vector_enabled hybrid_engine" by (simp add: hybrid_engine_def)
  have v: "vector_search hybrid_engine (\<lambda>q. Inr []) ''dark mode'' (2 * 2)
             = [chunk_b\<lparr>score := 1 / 2\<rparr>]"
    by (simp add: vector_search_def hybrid_engine_def chunk_b_def)
  have k: "key_of chunk_a \<noteq> key_of chunk_b \<and> key_of chunk_a \<noteq> key_of chunk_c
           \<and> key_of chunk_b \<noteq> key_of chunk_c"
    by (simp add: key_of_def chunk_a_def chunk_b_def chunk_c_def)
  have vne: "vector_search hybrid_engine (\<lambda>q. Inr []) ''dark mode'' (2 * 2) \<noteq> []"
    using v by simp
  have p: "(0::int) \<le> 2" by simp
  note t = rrf_fuse_sums_reciprocal_ranks [OF h,
      of "[[chunk_b, chunk_a], [chunk_c, chunk_b]]" hybrid_engine "\<lambda>q. Inr []" "''dark mode''" 2
         chunk_a chunk_b chunk_c]
  from t k have s: "rrf_fuse [[chunk_b, chunk_a], [chunk_c, chunk_b]] 60 =
       Inr [chunk_b\<lparr>score := 1 / 61 + 1 / 62\<rparr>, chunk_c\<lparr>score := 1 / 61\<rparr>,
            chunk_a\<lparr>score := 1 / 62\<rparr>]"
    by blast
  from t e vne p have f: "\<exists>fused. rrf_fuse [bm25_search hybrid_engine ''dark mode'' (2 * 2),
                          vector_search hybrid_engine (\<lambda>q. Inr []) ''dark mode'' (2 * 2)] 60
                 = Inr fused
        \<and> search hybrid_engine (\<lambda>q. Inr []) ''dark mode'' 2 = Inr (take (nat 2) fused)"
    by blast
  from h e v k s f show ?thesis by blast
qed

text \<open>
  Claim C8. When vector search is disabled, or enabled and returning nothing (which is
  also what it does when the embedding call or the store raises), \<open>search\<close> returns
  normally, and what it returns is the lexical result list cut to \<open>top_k\<close>: for a
  \<open>top_k\<close> that is not negative, exactly the result of the lexical search for
  \<open>top_k\<close> items, which has at most \<open>top_k\<close> entries.
\<close>

theorem search_falls_back_to_bm25:
  assumes "\<not> vector_enabled eng \<or> vector_search eng embed_query query (top_k * 2) = []"
  shows "search eng embed_query query top_k
           = Inr (py_slice_to top_k (bm25_search eng query (top_k * 2)))
       \<and> (0 \<le> top_k \<longrightarrow>
            search eng embed_query query top_k = Inr (bm25_search eng query top_k)
            \<and> length (bm25_search eng query top_k) \<le> nat top_k)"
proof -
  have s: "search eng embed_query query top_k
             = Inr (py_slice_to top_k (bm25_search eng query (top_k * 2)))"
    using assms by (auto simp add: search_def Let_def)
  show ?thesis
    using s bm25_search_truncated [of top_k eng query] length_bm25_search [of top_k eng query]
    by simp
qed

theorem search_falls_back_to_bm25_witness:
  "vector_enabled example_engine
   \<and> vector_search example_engine (\<lambda>q. Inr []) ''py'' (2 * 2) = []
   \<and> (0::int) \<le> 2
   \<and> search example_engine (\<lambda>q. Inr []) ''py'' 2
       = Inr [chunk_b\<lparr>score := 3\<rparr>, chunk_c\<lparr>score := 2\<rparr>]"
proof -
  have h: "\<not> vector_enabled example_engine
      \<or> vector_search example_engine (\<lambda>q. Inr []) ''py'' (2 * 2) = []"
    by (simp add: vector_search_def example_engine_def)
  have b: "bm25_search example_engine ''py'' 2 = [chunk_b\<lparr>score := 3\<rparr>, chunk_c\<lparr>score := 2\<rparr>]"
    by (simp add: bm25_search_def example_engine_def tokenize_def is_word_char_def
        lower_char_def py_slice_to_def Let_def)
  have p: "(0::int) \<le> 2" by simp
  from search_falls_back_to_bm25 [OF h] p
  have "search example_engine (\<lambda>q. Inr []) ''py'' 2 = Inr (bm25_search example_engine ''py'' 2)"
    by blast
  then have "search example_engine (\<lambda>q. Inr []) ''py'' 2
               = Inr [chunk_b\<lparr>score := 3\<rparr>, chunk_c\<lparr>score := 2\<rparr>]"
    unfolding b .
  moreover have "vector_enabled example_engine"
    by (simp add: example_engine_def)
  moreover have "vector_search example_engine (\<lambda>q. Inr []) ''py'' (2 * 2) = []"
    by (simp add: vector_search_def example_engine_def)
  ultimately show ?thesis using p by (intro conjI)
qed


section \<open>Properties of the embedding store\<close>

lemma fold_max_snoc: "fold max (xs @ [x]) (0::nat) = max x (fold max xs 0)"
  by simp

lemma new_chunks_all_present:
  "\<forall>c \<in> set cs. cd_content_hash c \<in> present \<Longrightarrow> new_chunks present cs = []"
  by (induction cs) simp_all

lemma upsert_loop_ok:
  assumes "store_ok st"
    and "\<forall>(c, e) \<in> set ps. length e = EMBEDDING_DIM"
  shows "\<exists>st' rows. upsert_loop st ps n = (st', Inr (n + length rows))
           \<and> chunks_table st' = chunks_table st @ rows
           \<and> map row_dict rows = new_chunks (get_existing_hashes st) (map fst ps)
           \<and> store_ok st'
           \<and> (distinct (map row_content_hash (chunks_table st))
                \<longrightarrow> distinct (map row_content_hash (chunks_table st')))
           \<and> (rows = [] \<longrightarrow> st' = st)"
  using assms
proof (induction ps arbitrary: st n)
  case Nil
  then show ?case by simp
next
  case (Cons p ps)
  obtain chunk emb where p: "p = (chunk, emb)" by (cases p)
  have dims: "\<forall>(c, e) \<in> set ps. length e = EMBEDDING_DIM" and dim: "length emb = EMBEDDING_DIM"
    using Cons.prems(2) p by auto
  show ?case
  proof (cases "cd_content_hash chunk \<in> get_existing_hashes st")
    case True
    from Cons.IH [OF Cons.prems(1) dims, of n] True show ?thesis
      by (simp add: p)
  next
    case False
    define rid where "rid = next_row_id st"
    define row where "row = \<lparr>row_id = rid, row_source_file = cd_source_file chunk,
                           row_heading = cd_heading chunk, row_content = cd_content chunk,
                           row_content_hash = cd_content_hash chunk\<rparr>"
    define st2 where "st2 = st\<lparr>chunks_table := chunks_table st @ [row], sqlite_sequence := rid,
                              vec_chunks := vec_chunks st @ [(rid, emb)]\<rparr>"
    have fresh: "rid \<notin> fst ` set (vec_chunks st)"
      using Cons.prems(1) by (auto simp: store_ok_def rid_def)
    have step: "upsert_loop st (p # ps) n = upsert_loop st2 ps (Suc n)"
      using False dim fresh by (simp add: p Let_def rid_def [symmetric] row_def st2_def)
    have nxt: "next_row_id st2 = Suc rid"
      by (simp add: next_row_id_def st2_def row_def rid_def)
    have ok2: "store_ok st2"
      using Cons.prems(1) nxt by (auto simp: store_ok_def st2_def rid_def [symmetric])
    have ex2: "get_existing_hashes st2 = insert (cd_content_hash chunk) (get_existing_hashes st)"
      by (simp add: get_existing_hashes_def st2_def row_def)
    from Cons.IH [OF ok2 dims, of "Suc n"] obtain st' rows where
      res: "upsert_loop st2 ps (Suc n) = (st', Inr (Suc n + length rows))"
      and tbl: "chunks_table st' = chunks_table st2 @ rows"
      and new: "map row_dict rows = new_chunks (get_existing_hashes st2) (map fst ps)"
      and ok: "store_ok st'"
      and dist: "distinct (map row_content_hash (chunks_table st2))
                   \<longrightarrow> distinct (map row_content_hash (chunks_table st'))"
      by (elim exE conjE) (rule that)
    have a: "upsert_loop st (p # ps) n = (st', Inr (n + length (row # rows)))"
      using step res by simp
    have b: "chunks_table st' = chunks_table st @ (row # rows)"
      using tbl by (simp add: st2_def)
    have c: "map row_dict (row # rows) = new_chunks (get_existing_hashes st) (map fst (p # ps))"
      using new False by (simp add: p ex2 row_dict_def row_def)
    have d: "distinct (map row_content_hash (chunks_table st))
               \<longrightarrow> distinct (map row_content_hash (chunks_table st'))"
      using dist False by (simp add: st2_def row_def get_existing_hashes_def)
    have e: "row # rows = [] \<longrightarrow> st' = st" by simp
    from a b c ok d e show ?thesis by iprover
  qed
qed

text \<open>
  Claim C7. Take a store whose vector ids all come from its chunk table, as is the case
  for the empty store and after every \<open>upsert_chunks\<close> that returned, and embeddings of
  the store's dimension. Then \<open>upsert_chunks\<close> returns, and it returns the number of
  rows it added; the rows that were there are unchanged and the added rows are, in
  order, the chunks handed over whose fingerprint was not present (each fingerprint
  once); fingerprints stay unique; and when every fingerprint handed over is present
  nothing at all changes and the count is zero. In particular, upserting one
  {source, heading, content} chunk twice into the empty store returns 1 and then 0 and
  leaves one stored row.
\<close>

theorem upsert_chunks_inserts_new_fingerprints:
  assumes "store_ok st"
    and "\<forall>e \<in> set embeddings. length e = EMBEDDING_DIM"
  shows "\<exists>st' rows.
           upsert_chunks st cs embeddings = (st', Inr (length rows))
         \<and> chunks_table st' = chunks_table st @ rows
         \<and> map row_dict rows
             = new_chunks (get_existing_hashes st) (take (length embeddings) cs)
         \<and> store_ok st'
         \<and> (distinct (map row_content_hash (chunks_table st))
              \<longrightarrow> distinct (map row_content_hash (chunks_table st')))
         \<and> ((\<forall>c \<in> set cs. cd_content_hash c \<in> get_existing_hashes st)
              \<longrightarrow> st' = st \<and> rows = [])
         \<and> (length e1 = EMBEDDING_DIM \<longrightarrow>
              (\<exists>st1. upsert_chunks empty_store
                        [\<lparr>cd_source_file = src, cd_heading = h, cd_content = body,
                          cd_content_hash = content_hash sha src h body\<rparr>] [e1] = (st1, Inr 1)
                   \<and> upsert_chunks st1
                        [\<lparr>cd_source_file = src, cd_heading = h, cd_content = body,
                          cd_content_hash = content_hash sha src h body\<rparr>] [e2] = (st1, Inr 0)
                   \<and> length (chunks_table st1) = 1))"
proof -
  have dims: "\<forall>(c, e) \<in> set (zip cs embeddings). length e = EMBEDDING_DIM"
    using assms(2) by (auto dest: set_zip_rightD)
  from upsert_loop_ok [OF assms(1) dims, of 0] obtain st' rows where
    res: "upsert_loop st (zip cs embeddings) 0 = (st', Inr (0 + length rows))"
    and tbl: "chunks_table st' = chunks_table st @ rows"
    and new: "map row_dict rows = new_chunks (get_existing_hashes st) (map fst (zip cs embeddings))"
    and ok: "store_ok st'"
    and dist: "distinct (map row_content_hash (chunks_table st))
                 \<longrightarrow> distinct (map row_content_hash (chunks_table st'))"
    and same: "rows = [] \<longrightarrow> st' = st"
    by (elim exE conjE) (rule that)
  have fst_zip: "map fst (zip cs embeddings) = take (length embeddings) cs"
    by (cases "length cs \<le> length embeddings") (simp_all add: map_fst_zip_take min_def)
  have a: "upsert_chunks st cs embeddings = (st', Inr (length rows))"
    using res by (simp add: upsert_chunks_def)
  have c: "map row_dict rows = new_chunks (get_existing_hashes st) (take (length embeddings) cs)"
    using new fst_zip by simp
  have f: "(\<forall>c \<in> set cs. cd_content_hash c \<in> get_existing_hashes st) \<longrightarrow> st' = st \<and> rows = []"
  proof
    assume all: "\<forall>c \<in> set cs. cd_content_hash c \<in> get_existing_hashes st"
    then have "\<forall>c \<in> set (take (length embeddings) cs). cd_content_hash c \<in> get_existing_hashes st"
      by (auto dest: in_set_takeD)
    then have "new_chunks (get_existing_hashes st) (take (length embeddings) cs) = []"
      by (rule new_chunks_all_present)
    with c have "rows = []" by simp
    with same show "st' = st \<and> rows = []" by simp
  qed
  have g: "length e1 = EMBEDDING_DIM \<longrightarrow>
              (\<exists>st1. upsert_chunks empty_store
                        [\<lparr>cd_source_file = src, cd_heading = h, cd_content = body,
                          cd_content_hash = content_hash sha src h body\<rparr>] [e1] = (st1, Inr 1)
                   \<and> upsert_chunks st1
                        [\<lparr>cd_source_file = src, cd_heading = h, cd_content = body,
                          cd_content_hash = content_hash sha src h body\<rparr>] [e2] = (st1, Inr 0)
                   \<and> length (chunks_table st1) = 1)"
    by (simp add: upsert_chunks_def empty_store_def get_existing_hashes_def next_row_id_def
        Let_def)
  from a tbl c ok dist f g show ?thesis by iprover
qed

theorem upsert_chunks_inserts_new_fingerprints_witness:
  "store_ok empty_store
   \<and> length (replicate 768 (0::rat)) = EMBEDDING_DIM
   \<and> (cd_content_hash hello_chunk \<in> get_existing_hashes
           \<lparr>chunks_table = [\<lparr>row_id = 1, row_source_file = ''test.md'', row_heading = ''A'',
                               row_content = ''hello'', row_content_hash = ''test.md|A|hello''\<rparr>],
             vec_chunks = [(1, replicate 768 0)], sqlite_sequence = 1\<rparr>)
   \<and> upsert_chunks empty_store [hello_chunk] [replicate 768 0]
       = (\<lparr>chunks_table = [\<lparr>row_id = 1, row_source_file = ''test.md'', row_heading = ''A'',
                               row_content = ''hello'', row_content_hash = ''test.md|A|hello''\<rparr>],
           vec_chunks = [(1, replicate 768 0)], sqlite_sequence = 1\<rparr>, Inr 1)
   \<and> upsert_chunks
         \<lparr>chunks_table = [\<lparr>row_id = 1, row_source_file = ''test.md'', row_heading = ''A'',
                             row_content = ''hello'', row_content_hash = ''test.md|A|hello''\<rparr>],
           vec_chunks = [(1, replicate 768 0)], sqlite_sequence = 1\<rparr>
         [hello_chunk] [replicate 768 1]
       = (\<lparr>chunks_table = [\<lparr>row_id = 1, row_source_file = ''test.md'', row_heading = ''A'',
                               row_content = ''hello'', row_content_hash = ''test.md|A|hello''\<rparr>],
           vec_chunks = [(1, replicate 768 0)], sqlite_sequence = 1\<rparr>, Inr 0)"
proof -
  let ?st1 = "\<lparr>chunks_table = [\<lparr>row_id = 1, row_source_file = ''test.md'', row_heading = ''A'',
                             row_content = ''hello'', row_content_hash = ''test.md|A|hello''\<rparr>],
           vec_chunks = [(1, replicate 768 (0::rat))], sqlite_sequence = 1\<rparr>"
  have ok0: "store_ok empty_store"
    by (simp add: store_ok_def empty_store_def)
  have ok1: "store_ok ?st1"
    by (simp add: store_ok_def next_row_id_def)
  have d0: "\<forall>e \<in> set [replicate 768 (0::rat)]. length e = EMBEDDING_DIM"
    by (simp add: EMBEDDING_DIM_def)
  have d1: "\<forall>e \<in> set [replicate 768 (1::rat)]. length e = EMBEDDING_DIM"
    by (simp add: EMBEDDING_DIM_def)
  have l: "length (replicate 768 (0::rat)) = EMBEDDING_DIM"
    by (simp add: EMBEDDING_DIM_def)
  have present: "\<forall>c \<in> set [hello_chunk]. cd_content_hash c \<in> get_existing_hashes ?st1"
    by (simp add: hello_chunk_def content_hash_def get_existing_hashes_def)
  have first: "upsert_chunks empty_store [hello_chunk] [replicate 768 0] = (?st1, Inr 1)"
    by (simp add: upsert_chunks_def empty_store_def hello_chunk_def content_hash_def
        get_existing_hashes_def next_row_id_def EMBEDDING_DIM_def Let_def)
  note t = upsert_chunks_inserts_new_fingerprints [OF ok1 d1, where cs = "[hello_chunk]"
      and ?e1.0 = "replicate 768 0" and ?e2.0 = "replicate 768 1" and src = "''test.md''"
      and h = "''A''" and body = "''hello''" and sha = "\<lambda>s. s"]
  have second: "upsert_chunks ?st1 [hello_chunk] [replicate 768 1] = (?st1, Inr 0)"
    by (insert t present, elim exE conjE, simp)
  have present': "cd_content_hash hello_chunk \<in> get_existing_hashes ?st1"
    using present by simp
  from ok0 l present' first second show ?thesis by (intro conjI)
qed

end
